theory Spec2Isabelle
  imports Main "HOL-Library.Word"
begin

unbundle bit_operations_syntax

section \<open>JavaScript strings\<close>

text \<open>
  A JavaScript string is a sequence of 16-bit code units; \<open>length\<close>, \<open>charCodeAt\<close>,
  \<open>split('')\<close> and the regular expressions of the sources all work on code units.
  String literals of the sources are written through \<open>js\<close>.
\<close>

type_synonym code_unit = "16 word"
type_synonym jsstring = "code_unit list"

definition cu :: "char \<Rightarrow> code_unit" where
  "cu c = of_char c"

definition js :: "string \<Rightarrow> jsstring" where
  "js s = map cu s"

section \<open>security.js: constantTimeEqual\<close>

text \<open>
  \<open>a.charCodeAt(i)\<close> as the operand of a bitwise operator: the code unit at \<open>i\<close>
  converted by ToInt32, and 0 (ToInt32 of NaN) when \<open>i\<close> is out of range.
\<close>

definition charCodeAt :: "jsstring \<Rightarrow> nat \<Rightarrow> 32 word" where
  "charCodeAt s i = (if i < length s then ucast (s ! i) else 0)"

text \<open>
  The loop \<open>for (let i = 0; i < a.length; i++) result |= a.charCodeAt(i) ^ b.charCodeAt(i)\<close>,
  entered at index \<open>i\<close> with the accumulator \<open>result\<close>.
\<close>

function constantTimeEqual_loop :: "jsstring \<Rightarrow> jsstring \<Rightarrow> nat \<Rightarrow> 32 word \<Rightarrow> 32 word" where
  "constantTimeEqual_loop a b i result =
     (if i < length a
      then constantTimeEqual_loop a b (i + 1) (result OR (charCodeAt a i XOR charCodeAt b i))
      else result)"
  by pat_completeness auto
termination
  by (relation "measure (\<lambda>(a, b, i, result). length a - i)") auto

definition constantTimeEqual :: "jsstring \<Rightarrow> jsstring \<Rightarrow> bool" where
  "constantTimeEqual a b =
     (if length a \<noteq> length b then False
      else constantTimeEqual_loop a b 0 0 = 0)"

section \<open>Numbers as text\<close>


definition digit_char :: "nat \<Rightarrow> code_unit" where
  "digit_char d = (if d < 10 then of_nat (48 + d) else of_nat (87 + d))"

function to_radix :: "nat \<Rightarrow> nat \<Rightarrow> jsstring" where
  "to_radix r n =
     (if n < r \<or> r < 2 then [digit_char n]
      else to_radix r (n div r) @ [digit_char (n mod r)])"
  by pat_completeness auto
termination
  by (relation "measure (\<lambda>(r, n). n)") auto

definition toString_radix :: "nat \<Rightarrow> int \<Rightarrow> jsstring" where
  "toString_radix r i =
     (if i < 0 then cu CHR ''-'' # to_radix r (nat (- i)) else to_radix r (nat i))"

section \<open>JSON values and JSON.stringify\<close>

datatype json =
    JNull
  | JBool bool
  | JNumber int
  | JString jsstring
  | JArray "json list"
  | JObject "(jsstring \<times> json) list"

text \<open>\<open>Array.prototype.join\<close> on an array of strings.\<close>

fun join :: "jsstring \<Rightarrow> jsstring list \<Rightarrow> jsstring" where
  "join sep [] = []"
| "join sep [x] = x"
| "join sep (x # y # ys) = x @ sep @ join sep (y # ys)"

definition is_high_surrogate :: "code_unit \<Rightarrow> bool" where
  "is_high_surrogate c = (0xD800 \<le> c \<and> c \<le> 0xDBFF)"

definition is_low_surrogate :: "code_unit \<Rightarrow> bool" where
  "is_low_surrogate c = (0xDC00 \<le> c \<and> c \<le> 0xDFFF)"

text \<open>
  QuoteJSONString of ECMAScript: the short escapes, \<open>\uXXXX\<close> (lower-case digits) for the
  other control characters and for a surrogate that is not part of a pair, every other
  code unit as it is. The backslash is code unit \<open>0x5C\<close>, the double quote \<open>0x22\<close>.
\<close>

definition unicode_escape :: "code_unit \<Rightarrow> jsstring" where
  "unicode_escape c =
     [0x5C, cu CHR ''u'',
      digit_char (unat c div 4096), digit_char (unat c div 256 mod 16),
      digit_char (unat c div 16 mod 16), digit_char (unat c mod 16)]"

definition quote_unit :: "code_unit \<Rightarrow> jsstring" where
  "quote_unit c =
     (if c = 0x08 then [0x5C, cu CHR ''b'']
      else if c = 0x09 then [0x5C, cu CHR ''t'']
      else if c = 0x0A then [0x5C, cu CHR ''n'']
      else if c = 0x0C then [0x5C, cu CHR ''f'']
      else if c = 0x0D then [0x5C, cu CHR ''r'']
      else if c = 0x22 then [0x5C, 0x22]
      else if c = 0x5C then [0x5C, 0x5C]
      else if c < 0x20 then unicode_escape c
      else [c])"

fun quote_units :: "jsstring \<Rightarrow> jsstring" where
  "quote_units [] = []"
| "quote_units [c] =
     (if is_high_surrogate c \<or> is_low_surrogate c then unicode_escape c else quote_unit c)"
| "quote_units (c # d # cs) =
     (if is_high_surrogate c \<and> is_low_surrogate d then c # d # quote_units cs
      else if is_high_surrogate c \<or> is_low_surrogate c
        then unicode_escape c @ quote_units (d # cs)
      else quote_unit c @ quote_units (d # cs))"

definition QuoteJSONString :: "jsstring \<Rightarrow> jsstring" where
  "QuoteJSONString s = 0x22 # quote_units s @ [0x22]"

text \<open>
  \<open>JSON.stringify\<close> without a replacer or an indentation. A number is printed with the
  decimal digits of the integer, which is how JavaScript prints a safe integer (from
  \<open>10^21\<close> on JavaScript prints an exponent, and the model does not follow it).
\<close>

fun JSON_stringify :: "json \<Rightarrow> jsstring" where
  "JSON_stringify JNull = js ''null''"
| "JSON_stringify (JBool b) = (if b then js ''true'' else js ''false'')"
| "JSON_stringify (JNumber n) = toString_radix 10 n"
| "JSON_stringify (JString s) = QuoteJSONString s"
| "JSON_stringify (JArray vs) =
     js ''['' @ join (js '','') (map JSON_stringify vs) @ js '']''"
| "JSON_stringify (JObject kvs) =
     js ''{'' @
     join (js '','') (map (\<lambda>(k, v). QuoteJSONString k @ js '':'' @ JSON_stringify v) kvs) @
     js ''}''"

section \<open>JSON.parse\<close>

text \<open>
  The exceptions of the sources are values of \<open>error\<close>. \<open>Unsupported\<close> is not an
  exception of JavaScript: it marks an input on which the model does not say what the
  code does (a number that is not an integer, a coercion of a string to a number, an
  object key that JavaScript would reorder). On such an input \<open>JSON_parse\<close> is partial:
  it returns \<open>Unsupported\<close> where \<open>JSON.parse\<close> returns a value.
\<close>

datatype error = SyntaxError | TypeError | URIError | InvalidCharacterError | Unsupported

datatype token =
    TLBrace | TRBrace | TLBrack | TRBrack | TComma | TColon
  | TNull | TTrue | TFalse | TNum int | TStr jsstring

definition is_ws :: "code_unit \<Rightarrow> bool" where
  "is_ws c = (c = 0x20 \<or> c = 0x09 \<or> c = 0x0A \<or> c = 0x0D)"

definition is_digit :: "code_unit \<Rightarrow> bool" where
  "is_digit c = (0x30 \<le> c \<and> c \<le> 0x39)"

definition digit_val :: "code_unit \<Rightarrow> nat" where
  "digit_val c = unat c - 48"

definition digits_val :: "jsstring \<Rightarrow> nat" where
  "digits_val ds = foldl (\<lambda>a d. 10 * a + digit_val d) 0 ds"

definition hex_val :: "code_unit \<Rightarrow> nat option" where
  "hex_val c =
     (if 0x30 \<le> c \<and> c \<le> 0x39 then Some (unat c - 48)
      else if 0x41 \<le> c \<and> c \<le> 0x46 then Some (unat c - 55)
      else if 0x61 \<le> c \<and> c \<le> 0x66 then Some (unat c - 87)
      else None)"

definition simple_escape :: "code_unit \<Rightarrow> code_unit option" where
  "simple_escape e =
     (if e = 0x22 then Some 0x22
      else if e = 0x5C then Some 0x5C
      else if e = cu CHR ''/'' then Some (cu CHR ''/'')
      else if e = cu CHR ''b'' then Some 0x08
      else if e = cu CHR ''f'' then Some 0x0C
      else if e = cu CHR ''n'' then Some 0x0A
      else if e = cu CHR ''r'' then Some 0x0D
      else if e = cu CHR ''t'' then Some 0x09
      else None)"

text \<open>
  The characters of a string literal after its opening quote, up to the closing quote:
  the string's value and the rest of the input.
\<close>

fun scan_string :: "jsstring \<Rightarrow> (jsstring \<times> jsstring) option" where
  "scan_string [] = None"
| "scan_string (c # cs) =
     (if c = 0x22 then Some ([], cs)
      else if c = 0x5C then
        (case cs of
           [] \<Rightarrow> None
         | e # es \<Rightarrow>
             if e = cu CHR ''u'' then
               (case es of
                  h1 # h2 # h3 # h4 # rest \<Rightarrow>
                    (case (hex_val h1, hex_val h2, hex_val h3, hex_val h4) of
                       (Some a, Some b, Some c', Some d) \<Rightarrow>
                         map_option (\<lambda>(s, r). (of_nat (((a * 16 + b) * 16 + c') * 16 + d) # s, r))
                           (scan_string rest)
                     | _ \<Rightarrow> None)
                | _ \<Rightarrow> None)
             else
               (case simple_escape e of
                  None \<Rightarrow> None
                | Some x \<Rightarrow> map_option (\<lambda>(s, r). (x # s, r)) (scan_string es)))
      else if c < 0x20 then None
      else map_option (\<lambda>(s, r). (c # s, r)) (scan_string cs))"

text \<open>
  A number literal: an optional minus sign and the digits of an integer without a
  leading zero. A fraction or an exponent after them is outside the model. The value
  is the integer that the digits denote, which is the number that JavaScript reads
  when it is a safe integer (JavaScript rounds a literal beyond \<open>2^53\<close> to the nearest
  double-precision number, and the model does not follow it).
\<close>

definition scan_number :: "jsstring \<Rightarrow> error + (int \<times> jsstring)" where
  "scan_number s =
     (let neg = (s \<noteq> [] \<and> hd s = cu CHR ''-'');
          s1 = (if neg then tl s else s);
          ds = takeWhile is_digit s1;
          rest = dropWhile is_digit s1
      in if ds = [] then Inl SyntaxError
         else if hd ds = cu CHR ''0'' \<and> 1 < length ds then Inl SyntaxError
         else if rest \<noteq> [] \<and> hd rest \<in> {cu CHR ''.'', cu CHR ''e'', cu CHR ''E''} then Inl Unsupported
         else Inr (if neg then - int (digits_val ds) else int (digits_val ds), rest))"

definition starts_with :: "jsstring \<Rightarrow> jsstring \<Rightarrow> bool" where
  "starts_with p s = (take (length p) s = p)"

definition cons_token :: "token \<Rightarrow> error + token list \<Rightarrow> error + token list" where
  "cons_token t r = (case r of Inl e \<Rightarrow> Inl e | Inr ts \<Rightarrow> Inr (t # ts))"

lemma scan_string_shorter:
  "scan_string cs = Some (s, rest) \<Longrightarrow> length rest < length cs"
proof (induction cs arbitrary: s rest rule: scan_string.induct)
  case 1
  then show ?case by simp
next
  case (2 c cs)
  from "2.prems" "2.IH" show ?case
    by (fastforce split: if_splits list.splits option.splits)
qed

lemma scan_number_shorter:
  "scan_number s = Inr (n, rest) \<Longrightarrow> length rest < length s"
proof -
  assume h: "scan_number s = Inr (n, rest)"
  define s1 where "s1 = (if s \<noteq> [] \<and> hd s = cu CHR ''-'' then tl s else s)"
  from h have ne: "takeWhile is_digit s1 \<noteq> []" and r: "rest = dropWhile is_digit s1"
    by (auto simp: scan_number_def Let_def s1_def split: if_splits)
  have "length (takeWhile is_digit s1) + length (dropWhile is_digit s1) = length s1"
    by (metis length_append takeWhile_dropWhile_id)
  moreover from ne have "0 < length (takeWhile is_digit s1)" by simp
  ultimately have "length rest < length s1" unfolding r by linarith
  moreover have "length s1 \<le> length s" by (simp add: s1_def)
  ultimately show ?thesis by simp
qed

function tokenize :: "jsstring \<Rightarrow> error + token list" where
  "tokenize [] = Inr []"
| "tokenize (c # cs) =
     (if is_ws c then tokenize cs
      else if c = cu CHR ''{'' then cons_token TLBrace (tokenize cs)
      else if c = cu CHR ''}'' then cons_token TRBrace (tokenize cs)
      else if c = cu CHR ''['' then cons_token TLBrack (tokenize cs)
      else if c = cu CHR '']'' then cons_token TRBrack (tokenize cs)
      else if c = cu CHR '','' then cons_token TComma (tokenize cs)
      else if c = cu CHR '':'' then cons_token TColon (tokenize cs)
      else if c = 0x22 then
        (case scan_string cs of
           None \<Rightarrow> Inl SyntaxError
         | Some (s, rest) \<Rightarrow> cons_token (TStr s) (tokenize rest))
      else if c = cu CHR ''-'' \<or> is_digit c then
        (case scan_number (c # cs) of
           Inl e \<Rightarrow> Inl e
         | Inr (n, rest) \<Rightarrow> cons_token (TNum n) (tokenize rest))
      else if starts_with (js ''null'') (c # cs) then cons_token TNull (tokenize (drop 3 cs))
      else if starts_with (js ''true'') (c # cs) then cons_token TTrue (tokenize (drop 3 cs))
      else if starts_with (js ''false'') (c # cs) then cons_token TFalse (tokenize (drop 4 cs))
      else Inl SyntaxError)"
  by pat_completeness auto
termination
  by (relation "measure length") (auto dest: scan_string_shorter scan_number_shorter)

text \<open>
  The parser reads the tokens from left to right with a stack of the arrays and objects
  that are still open. An array frame holds the elements read so far, last first; an
  object frame holds the members read so far and the key whose value is being read.
  A key that occurs again replaces the value of its first occurrence, as \<open>JSON.parse\<close>
  does. JavaScript lists the keys that are canonical non-negative integers before the
  others: an object with such a key is outside the model.
\<close>

datatype frame = FArray "json list" | FObject "(jsstring \<times> json) list" jsstring

datatype pstate =
    PValue
  | PFirstElem
  | PFirstKey
  | PKey "(jsstring \<times> json) list"
  | PColon "(jsstring \<times> json) list" jsstring
  | PDone json
  | PUnsupported

fun upsert :: "jsstring \<Rightarrow> json \<Rightarrow> (jsstring \<times> json) list \<Rightarrow> (jsstring \<times> json) list" where
  "upsert k v [] = [(k, v)]"
| "upsert k v ((k', v') # kvs) = (if k' = k then (k, v) # kvs else (k', v') # upsert k v kvs)"

definition is_index_key :: "jsstring \<Rightarrow> bool" where
  "is_index_key k = (k \<noteq> [] \<and> list_all is_digit k \<and> (hd k \<noteq> cu CHR ''0'' \<or> length k = 1))"

fun begin_value :: "token \<Rightarrow> frame list \<Rightarrow> (pstate \<times> frame list) option" where
  "begin_value TNull st = Some (PDone JNull, st)"
| "begin_value TTrue st = Some (PDone (JBool True), st)"
| "begin_value TFalse st = Some (PDone (JBool False), st)"
| "begin_value (TNum n) st = Some (PDone (JNumber n), st)"
| "begin_value (TStr s) st = Some (PDone (JString s), st)"
| "begin_value TLBrack st = Some (PFirstElem, st)"
| "begin_value TLBrace st = Some (PFirstKey, st)"
| "begin_value _ st = None"

definition begin_key :: "(jsstring \<times> json) list \<Rightarrow> token \<Rightarrow> frame list \<Rightarrow> (pstate \<times> frame list) option" where
  "begin_key kvs t st =
     (case t of
        TStr k \<Rightarrow> if is_index_key k then Some (PUnsupported, st) else Some (PColon kvs k, st)
      | _ \<Rightarrow> None)"

fun step :: "pstate \<times> frame list \<Rightarrow> token \<Rightarrow> (pstate \<times> frame list) option" where
  "step (PUnsupported, st) t = Some (PUnsupported, st)"
| "step (PValue, st) t = begin_value t st"
| "step (PFirstElem, st) t =
     (if t = TRBrack then Some (PDone (JArray []), st) else begin_value t (FArray [] # st))"
| "step (PFirstKey, st) t =
     (if t = TRBrace then Some (PDone (JObject []), st) else begin_key [] t st)"
| "step (PKey kvs, st) t = begin_key kvs t st"
| "step (PColon kvs k, st) t =
     (if t = TColon then Some (PValue, FObject kvs k # st) else None)"
| "step (PDone v, []) t = None"
| "step (PDone v, FArray vs # st) t =
     (if t = TComma then Some (PValue, FArray (v # vs) # st)
      else if t = TRBrack then Some (PDone (JArray (rev (v # vs))), st)
      else None)"
| "step (PDone v, FObject kvs k # st) t =
     (if t = TComma then Some (PKey (upsert k v kvs), st)
      else if t = TRBrace then Some (PDone (JObject (upsert k v kvs)), st)
      else None)"

fun run :: "pstate \<times> frame list \<Rightarrow> token list \<Rightarrow> (pstate \<times> frame list) option" where
  "run c [] = Some c"
| "run c (t # ts) = (case step c t of None \<Rightarrow> None | Some c' \<Rightarrow> run c' ts)"

definition JSON_parse :: "jsstring \<Rightarrow> error + json" where
  "JSON_parse s =
     (case tokenize s of
        Inl e \<Rightarrow> Inl e
      | Inr ts \<Rightarrow>
          (case run (PValue, []) ts of
             Some (PDone v, []) \<Rightarrow> Inr v
           | Some (PUnsupported, st) \<Rightarrow> Inl Unsupported
           | _ \<Rightarrow> Inl SyntaxError))"

section \<open>Web storage\<close>

text \<open>
  \<open>localStorage\<close> and \<open>sessionStorage\<close> map string keys to string values;
  \<open>getItem\<close> of an absent key is \<open>null\<close>, here \<open>None\<close>.
\<close>

type_synonym storage = "jsstring \<rightharpoonup> jsstring"

definition getItem :: "storage \<Rightarrow> jsstring \<Rightarrow> jsstring option" where
  "getItem st k = st k"

definition setItem :: "storage \<Rightarrow> jsstring \<Rightarrow> jsstring \<Rightarrow> storage" where
  "setItem st k v = st(k \<mapsto> v)"

section \<open>cart.js: CartManager\<close>

text \<open>
  A catalog product exposes a numeric \<open>id\<close> (the field \<open>pid\<close>) and a \<open>price\<close> that
  may be absent; \<open>others\<close> holds its other properties. A cart line is the object
  literal that \<open>addItem\<close> pushes. The state is the \<open>cart\<close> array of the manager
  together with \<open>localStorage\<close>. The operations return the new state; the array that
  the methods return is its \<open>cart\<close>. The default \<open>quantity = 1\<close> of \<open>addItem\<close> is the
  call with the quantity 1.
\<close>

record product =
  pid :: int
  price :: "int option"
  others :: "(jsstring \<times> json) list"

record cart_item =
  product :: product
  quantity :: int
  unitPrice :: int

record CartManager =
  cart :: "cart_item list"
  localStorage :: storage

definition cartStorageKey :: jsstring where
  "cartStorageKey = js ''cart''"

definition product_json :: "product \<Rightarrow> json" where
  "product_json p =
     JObject ((js ''id'', JNumber (pid p)) #
              (case price p of None \<Rightarrow> [] | Some v \<Rightarrow> [(js ''price'', JNumber v)]) @
              others p)"

definition cart_item_json :: "cart_item \<Rightarrow> json" where
  "cart_item_json item =
     JObject [(js ''product'', product_json (product item)),
              (js ''quantity'', JNumber (quantity item)),
              (js ''unitPrice'', JNumber (unitPrice item))]"

definition cart_json :: "cart_item list \<Rightarrow> json" where
  "cart_json c = JArray (map cart_item_json c)"

definition saveCart :: "CartManager \<Rightarrow> CartManager" where
  "saveCart m =
     m\<lparr>localStorage := setItem (localStorage m) cartStorageKey (JSON_stringify (cart_json (cart m)))\<rparr>"

text \<open>
  \<open>existingItem.quantity += quantity\<close> mutates the object that \<open>find\<close> returned, which
  is the first line of the array with that identifier: \<open>update_first\<close> rewrites that
  line in place. The \<open>+\<close> of \<open>+=\<close> is the addition of integers, which is the addition
  of JavaScript as long as the two numbers and their sum are safe integers.
\<close>

fun update_first :: "('a \<Rightarrow> bool) \<Rightarrow> ('a \<Rightarrow> 'a) \<Rightarrow> 'a list \<Rightarrow> 'a list" where
  "update_first P f [] = []"
| "update_first P f (x # xs) = (if P x then f x # xs else x # update_first P f xs)"

definition has_id :: "int \<Rightarrow> cart_item \<Rightarrow> bool" where
  "has_id i item = (pid (product item) = i)"

definition addItem :: "CartManager \<Rightarrow> product \<Rightarrow> int \<Rightarrow> CartManager" where
  "addItem m p qty =
     (case find (has_id (pid p)) (cart m) of
        Some existingItem \<Rightarrow>
          saveCart (m\<lparr>cart :=
            update_first (has_id (pid p)) (\<lambda>item. item\<lparr>quantity := quantity item + qty\<rparr>) (cart m)\<rparr>)
      | None \<Rightarrow>
          saveCart (m\<lparr>cart := cart m @
            [\<lparr>product = p, quantity = qty,
              unitPrice = (case price p of None \<Rightarrow> 0 | Some v \<Rightarrow> if v = 0 then 0 else v)\<rparr>]\<rparr>))"

definition removeItem :: "CartManager \<Rightarrow> int \<Rightarrow> CartManager" where
  "removeItem m productId =
     saveCart (m\<lparr>cart := filter (\<lambda>item. pid (product item) \<noteq> productId) (cart m)\<rparr>)"

definition updateQuantity :: "CartManager \<Rightarrow> int \<Rightarrow> int \<Rightarrow> CartManager" where
  "updateQuantity m productId change =
     (case find (has_id productId) (cart m) of
        Some item \<Rightarrow>
          (let m' = m\<lparr>cart :=
                 update_first (has_id productId)
                   (\<lambda>item. item\<lparr>quantity := quantity item + change\<rparr>) (cart m)\<rparr>
           in if quantity item + change \<le> 0 then removeItem m' productId else saveCart m')
      | None \<Rightarrow> m)"

definition clearCart :: "CartManager \<Rightarrow> CartManager" where
  "clearCart m = saveCart (m\<lparr>cart := []\<rparr>)"

definition getItems :: "CartManager \<Rightarrow> cart_item list" where
  "getItems m = cart m"

text \<open>
  \<open>loadCart\<close>: the value that the constructor stores in \<open>this.cart\<close>. A string is
  truthy when it is not empty. The empty array is \<open>JArray []\<close>, which is \<open>cart_json []\<close>.
\<close>

definition loadCart :: "storage \<Rightarrow> error + json" where
  "loadCart ls =
     (case getItem ls cartStorageKey of
        None \<Rightarrow> Inr (JArray [])
      | Some cartJSON \<Rightarrow> if cartJSON \<noteq> [] then JSON_parse cartJSON else Inr (JArray []))"

section \<open>URI, escape and Base64 built-ins\<close>

text \<open>
  \<open>encryptData\<close> and \<open>decryptData\<close> are compositions of built-in functions:
  \<open>encodeURIComponent\<close> and \<open>decodeURIComponent\<close> (ECMAScript, Encode and Decode),
  \<open>escape\<close> and \<open>unescape\<close> (ECMAScript, Annex B), \<open>btoa\<close> and \<open>atob\<close> (HTML, with the
  forgiving Base64 decoding of the Infra standard). They are modelled after these
  standards. Code points and octets are natural numbers.
\<close>

definition is_alnum :: "code_unit \<Rightarrow> bool" where
  "is_alnum c = ((0x41 \<le> c \<and> c \<le> 0x5A) \<or> (0x61 \<le> c \<and> c \<le> 0x7A) \<or> (0x30 \<le> c \<and> c \<le> 0x39))"

text \<open>The characters that \<open>encodeURIComponent\<close> keeps: alphanumerics and \<open>- _ . ! ~ * ' ( )\<close>.\<close>

definition uri_unreserved :: "code_unit \<Rightarrow> bool" where
  "uri_unreserved c =
     (is_alnum c \<or> c \<in> {0x2D, 0x5F, 0x2E, 0x21, 0x7E, 0x2A, 0x27, 0x28, 0x29})"

text \<open>The characters that \<open>escape\<close> keeps: alphanumerics and \<open>@ * _ + - . /\<close>.\<close>

definition escape_unreserved :: "code_unit \<Rightarrow> bool" where
  "escape_unreserved c = (is_alnum c \<or> c \<in> {0x40, 0x2A, 0x5F, 0x2B, 0x2D, 0x2E, 0x2F})"

definition upper_hex :: "nat \<Rightarrow> code_unit" where
  "upper_hex d = (if d < 10 then of_nat (48 + d) else of_nat (55 + d))"

definition utf8_octets :: "nat \<Rightarrow> nat list" where
  "utf8_octets cp =
     (if cp < 0x80 then [cp]
      else if cp < 0x800 then [0xC0 + cp div 64, 0x80 + cp mod 64]
      else if cp < 0x10000 then [0xE0 + cp div 4096, 0x80 + cp div 64 mod 64, 0x80 + cp mod 64]
      else [0xF0 + cp div 262144, 0x80 + cp div 4096 mod 64, 0x80 + cp div 64 mod 64,
            0x80 + cp mod 64])"

definition percent_octet :: "nat \<Rightarrow> jsstring" where
  "percent_octet b = [0x25, upper_hex (b div 16), upper_hex (b mod 16)]"

definition percent_octets :: "nat list \<Rightarrow> jsstring" where
  "percent_octets bs = concat (map percent_octet bs)"

definition pair_code_point :: "code_unit \<Rightarrow> code_unit \<Rightarrow> nat" where
  "pair_code_point hi lo = 0x10000 + (unat hi - 0xD800) * 0x400 + (unat lo - 0xDC00)"

definition prepend :: "jsstring \<Rightarrow> error + jsstring \<Rightarrow> error + jsstring" where
  "prepend xs r = (case r of Inl e \<Rightarrow> Inl e | Inr ys \<Rightarrow> Inr (xs @ ys))"

text \<open>
  \<open>encodeURIComponent\<close>: an unreserved code unit stays; any other code point is
  replaced by the escapes of its UTF-8 octets; a surrogate that is not part of a pair is
  a URIError.
\<close>

fun encodeURIComponent :: "jsstring \<Rightarrow> error + jsstring" where
  "encodeURIComponent [] = Inr []"
| "encodeURIComponent (c # cs) =
     (if uri_unreserved c then prepend [c] (encodeURIComponent cs)
      else if is_low_surrogate c then Inl URIError
      else if is_high_surrogate c then
        (case cs of
           [] \<Rightarrow> Inl URIError
         | d # ds \<Rightarrow>
             if is_low_surrogate d
             then prepend (percent_octets (utf8_octets (pair_code_point c d))) (encodeURIComponent ds)
             else Inl URIError)
      else prepend (percent_octets (utf8_octets (unat c))) (encodeURIComponent cs))"

text \<open>The value of a string of hexadecimal digits, \<open>None\<close> when a character is not one.\<close>

fun hex_value :: "jsstring \<Rightarrow> nat option" where
  "hex_value [] = Some 0"
| "hex_value (c # cs) =
     (case (hex_val c, hex_value cs) of
        (Some d, Some v) \<Rightarrow> Some (d * 16 ^ length cs + v)
      | _ \<Rightarrow> None)"

text \<open>
  \<open>unescape\<close>: \<open>%uXXXX\<close> and \<open>%XX\<close> with hexadecimal digits are replaced by the code
  unit of that value; every other code unit stays.
\<close>

function unescape :: "jsstring \<Rightarrow> jsstring" where
  "unescape [] = []"
| "unescape (c # cs) =
     (if c = 0x25 \<and> 5 \<le> length cs \<and> hd cs = cu CHR ''u'' \<and> hex_value (take 4 (tl cs)) \<noteq> None
        then of_nat (the (hex_value (take 4 (tl cs)))) # unescape (drop 5 cs)
      else if c = 0x25 \<and> 2 \<le> length cs \<and> hex_value (take 2 cs) \<noteq> None
        then of_nat (the (hex_value (take 2 cs))) # unescape (drop 2 cs)
      else c # unescape cs)"
  by pat_completeness auto
termination
  by (relation "measure length") auto

text \<open>
  \<open>escape\<close>: a code unit outside the kept set becomes \<open>%XX\<close> when it is below 256
  and \<open>%uXXXX\<close> otherwise.
\<close>

definition escape_unit :: "code_unit \<Rightarrow> jsstring" where
  "escape_unit c =
     (if escape_unreserved c then [c]
      else if c < 256 then [0x25, upper_hex (unat c div 16), upper_hex (unat c mod 16)]
      else [0x25, cu CHR ''u'', upper_hex (unat c div 4096), upper_hex (unat c div 256 mod 16),
            upper_hex (unat c div 16 mod 16), upper_hex (unat c mod 16)])"

definition escape :: "jsstring \<Rightarrow> jsstring" where
  "escape s = concat (map escape_unit s)"

text \<open>
  \<open>decodeURIComponent\<close>. \<open>pct_octet\<close> reads one escape \<open>%XX\<close>, \<open>pct_octets n\<close> reads
  \<open>n\<close> of them, \<open>leading_ones\<close> counts the leading 1 bits of an octet, \<open>utf8_decode\<close> is
  the code point of a valid UTF-8 encoding (shortest form, no surrogate, at most
  \<open>0x10FFFF\<close>) and \<open>utf16_units\<close> its code units.
\<close>

definition pct_octet :: "jsstring \<Rightarrow> (nat \<times> jsstring) option" where
  "pct_octet s =
     (case s of
        p # h1 # h2 # rest \<Rightarrow>
          (if p = 0x25 then
             (case (hex_val h1, hex_val h2) of
                (Some a, Some b) \<Rightarrow> Some (a * 16 + b, rest)
              | _ \<Rightarrow> None)
           else None)
      | _ \<Rightarrow> None)"

fun pct_octets :: "nat \<Rightarrow> jsstring \<Rightarrow> (nat list \<times> jsstring) option" where
  "pct_octets 0 s = Some ([], s)"
| "pct_octets (Suc n) s =
     (case pct_octet s of
        None \<Rightarrow> None
      | Some (b, rest) \<Rightarrow>
          (case pct_octets n rest of
             None \<Rightarrow> None
           | Some (bs, rest') \<Rightarrow> Some (b # bs, rest')))"

definition leading_ones :: "nat \<Rightarrow> nat" where
  "leading_ones b =
     (if b < 0x80 then 0 else if b < 0xC0 then 1 else if b < 0xE0 then 2
      else if b < 0xF0 then 3 else if b < 0xF8 then 4 else 5)"

definition is_continuation :: "nat \<Rightarrow> bool" where
  "is_continuation b = (0x80 \<le> b \<and> b < 0xC0)"

fun utf8_decode :: "nat list \<Rightarrow> nat option" where
  "utf8_decode [b0, b1] =
     (let cp = (b0 - 0xC0) * 64 + (b1 - 0x80)
      in if is_continuation b1 \<and> 0x80 \<le> cp then Some cp else None)"
| "utf8_decode [b0, b1, b2] =
     (let cp = (b0 - 0xE0) * 4096 + (b1 - 0x80) * 64 + (b2 - 0x80)
      in if is_continuation b1 \<and> is_continuation b2 \<and> 0x800 \<le> cp \<and>
            \<not> (0xD800 \<le> cp \<and> cp \<le> 0xDFFF)
         then Some cp else None)"
| "utf8_decode [b0, b1, b2, b3] =
     (let cp = (b0 - 0xF0) * 262144 + (b1 - 0x80) * 4096 + (b2 - 0x80) * 64 + (b3 - 0x80)
      in if is_continuation b1 \<and> is_continuation b2 \<and> is_continuation b3 \<and>
            0x10000 \<le> cp \<and> cp \<le> 0x10FFFF
         then Some cp else None)"
| "utf8_decode _ = None"

definition utf16_units :: "nat \<Rightarrow> jsstring" where
  "utf16_units cp =
     (if cp < 0x10000 then [of_nat cp]
      else [of_nat (0xD800 + (cp - 0x10000) div 0x400), of_nat (0xDC00 + (cp - 0x10000) mod 0x400)])"

lemma pct_octet_shorter:
  "pct_octet s = Some (b, rest) \<Longrightarrow> length rest < length s"
  by (auto simp: pct_octet_def split: list.splits if_splits option.splits)

lemma pct_octets_shorter:
  "pct_octets n s = Some (bs, rest) \<Longrightarrow> length rest \<le> length s"
proof (induction n arbitrary: s bs rest)
  case 0
  then show ?case by simp
next
  case (Suc n)
  then show ?case
    by (fastforce split: option.splits dest: pct_octet_shorter)
qed

function decodeURIComponent :: "jsstring \<Rightarrow> error + jsstring" where
  "decodeURIComponent [] = Inr []"
| "decodeURIComponent (c # cs) =
     (if c \<noteq> 0x25 then prepend [c] (decodeURIComponent cs)
      else
        (case pct_octet (c # cs) of
           None \<Rightarrow> Inl URIError
         | Some (b, rest) \<Rightarrow>
             if leading_ones b = 0 then prepend [of_nat b] (decodeURIComponent rest)
             else if leading_ones b = 1 \<or> 4 < leading_ones b then Inl URIError
             else
               (case pct_octets (leading_ones b - 1) rest of
                  None \<Rightarrow> Inl URIError
                | Some (bs, rest') \<Rightarrow>
                    (case utf8_decode (b # bs) of
                       None \<Rightarrow> Inl URIError
                     | Some cp \<Rightarrow> prepend (utf16_units cp) (decodeURIComponent rest')))))"
  by pat_completeness auto
termination
proof (relation "measure length")
  show "wf (measure length)" by simp
next
  fix c :: code_unit and cs
  show "(cs, c # cs) \<in> measure length" by simp
next
  fix c :: code_unit and cs x2 b rest
  assume "pct_octet (c # cs) = Some x2" and "(b, rest) = x2"
  then have "length rest < length (c # cs)"
    using pct_octet_shorter[of "c # cs" b rest] by simp
  then show "(rest, c # cs) \<in> measure length" by simp
next
  fix c :: code_unit and cs x2 b rest x2a bs rest' x2b
  assume "pct_octet (c # cs) = Some x2" and "(b, rest) = x2"
    and "pct_octets (leading_ones b - 1) rest = Some x2a" and "(bs, rest') = x2a"
  then have "length rest < length (c # cs)" and "length rest' \<le> length rest"
    using pct_octet_shorter[of "c # cs" b rest]
      pct_octets_shorter[of "leading_ones b - 1" rest bs rest'] by simp_all
  then show "(rest', c # cs) \<in> measure length" by simp
qed

text \<open>
  Base64. \<open>sextets\<close> regroups octets into 6-bit values, three octets into four;
  \<open>b64_char\<close> and \<open>b64_val\<close> are the alphabet \<open>A-Z a-z 0-9 + /\<close>; the padding
  character \<open>=\<close> is \<open>0x3D\<close>.
\<close>

definition b64_char :: "nat \<Rightarrow> code_unit" where
  "b64_char n =
     (if n < 26 then of_nat (65 + n)
      else if n < 52 then of_nat (71 + n)
      else if n < 62 then of_nat (n - 4)
      else if n = 62 then 0x2B
      else 0x2F)"

definition b64_val :: "code_unit \<Rightarrow> nat option" where
  "b64_val c =
     (if 0x41 \<le> c \<and> c \<le> 0x5A then Some (unat c - 65)
      else if 0x61 \<le> c \<and> c \<le> 0x7A then Some (unat c - 71)
      else if 0x30 \<le> c \<and> c \<le> 0x39 then Some (unat c + 4)
      else if c = 0x2B then Some 62
      else if c = 0x2F then Some 63
      else None)"

fun sextets :: "nat list \<Rightarrow> nat list" where
  "sextets [] = []"
| "sextets [a] = [a div 4, a mod 4 * 16]"
| "sextets [a, b] = [a div 4, a mod 4 * 16 + b div 16, b mod 16 * 4]"
| "sextets (a # b # c # r) =
     [a div 4, a mod 4 * 16 + b div 16, b mod 16 * 4 + c div 64, c mod 64] @ sextets r"

definition base64_encode :: "nat list \<Rightarrow> jsstring" where
  "base64_encode bs =
     map b64_char (sextets bs) @ replicate ((3 - length bs mod 3) mod 3) 0x3D"

text \<open>\<open>btoa\<close>: a code unit above \<open>0xFF\<close> is an InvalidCharacterError.\<close>

definition btoa :: "jsstring \<Rightarrow> error + jsstring" where
  "btoa s =
     (if list_ex (\<lambda>c. 0xFF < c) s then Inl InvalidCharacterError
      else Inr (base64_encode (map unat s)))"

text \<open>
  The octets of a list of 6-bit values; the bits left over at the end (four after two
  values, two after three) are discarded.
\<close>

fun octets :: "nat list \<Rightarrow> nat list" where
  "octets (a # b # c # d # r) =
     [a * 4 + b div 16, b mod 16 * 16 + c div 4, c mod 4 * 64 + d] @ octets r"
| "octets [a, b, c] = [a * 4 + b div 16, b mod 16 * 16 + c div 4]"
| "octets [a, b] = [a * 4 + b div 16]"
| "octets _ = []"

definition is_ascii_ws :: "code_unit \<Rightarrow> bool" where
  "is_ascii_ws c = (c = 0x09 \<or> c = 0x0A \<or> c = 0x0C \<or> c = 0x0D \<or> c = 0x20)"

definition strip_padding :: "jsstring \<Rightarrow> jsstring" where
  "strip_padding d =
     (if length d mod 4 = 0 \<and> 2 \<le> length d \<and> last d = 0x3D \<and> last (butlast d) = 0x3D
        then butlast (butlast d)
      else if length d mod 4 = 0 \<and> d \<noteq> [] \<and> last d = 0x3D then butlast d
      else d)"

text \<open>
  \<open>atob\<close>: ASCII whitespace is removed; when the length is a multiple of four, one or
  two \<open>=\<close> at the end are removed; a length that leaves remainder one, or a character
  outside the alphabet, is an InvalidCharacterError.
\<close>

definition atob :: "jsstring \<Rightarrow> error + jsstring" where
  "atob s =
     (let d = strip_padding (filter (\<lambda>c. \<not> is_ascii_ws c) s)
      in if length d mod 4 = 1 then Inl InvalidCharacterError
         else if list_ex (\<lambda>c. b64_val c = None) d then Inl InvalidCharacterError
         else Inr (map of_nat (octets (map (\<lambda>c. the (b64_val c)) d))))"

section \<open>security.js: encryptData and decryptData\<close>

text \<open>\<open>replace(/_GP$/, '')\<close>: the suffix \<open>_GP\<close> is removed when the string ends with it.\<close>

definition remove_GP_suffix :: "jsstring \<Rightarrow> jsstring" where
  "remove_GP_suffix s =
     (if 3 \<le> length s \<and> drop (length s - 3) s = js ''_GP'' then take (length s - 3) s else s)"

text \<open>\<open>split(sep)\<close> with a separator of one code unit; the empty string gives one empty part.\<close>

fun split_on :: "code_unit \<Rightarrow> jsstring \<Rightarrow> jsstring list" where
  "split_on sep [] = [[]]"
| "split_on sep (c # cs) =
     (if c = sep then [] # split_on sep cs
      else (case split_on sep cs of
              [] \<Rightarrow> [[c]]
            | p # ps \<Rightarrow> (c # p) # ps))"

text \<open>
  \<open>encryptData(data)\<close> with the value \<open>now\<close> of \<open>Date.now()\<close> as an argument. An
  exception of \<open>encodeURIComponent\<close> or of \<open>btoa\<close> is caught and \<open>data\<close> is returned.
  \<open>split('').reverse().join('')\<close> reverses the code units.
\<close>

definition encryptData :: "int \<Rightarrow> jsstring \<Rightarrow> jsstring" where
  "encryptData now data =
     (let salt = js ''GP_'' @ toString_radix 36 now;
          combined = salt @ js ''|'' @ data
      in case encodeURIComponent combined of
           Inl e \<Rightarrow> data
         | Inr uri \<Rightarrow>
             (case btoa (unescape uri) of
                Inl e \<Rightarrow> data
              | Inr encoded \<Rightarrow> rev encoded @ js ''_GP''))"

text \<open>
  \<open>decryptData(encryptedData)\<close>: an exception of \<open>atob\<close> or of \<open>decodeURIComponent\<close>
  is caught and \<open>encryptedData\<close> is returned.
\<close>

definition decryptData :: "jsstring \<Rightarrow> jsstring" where
  "decryptData encryptedData =
     (let withoutPadding = remove_GP_suffix encryptedData;
          reversed = rev withoutPadding
      in case atob reversed of
           Inl e \<Rightarrow> encryptedData
         | Inr binary \<Rightarrow>
             (case decodeURIComponent (escape binary) of
                Inl e \<Rightarrow> encryptedData
              | Inr decoded \<Rightarrow>
                  (let parts = split_on (cu CHR ''|'') decoded
                   in if 1 < length parts then join (js ''|'') (tl parts) else decoded)))"

section \<open>security.js: checkRateLimit\<close>

text \<open>
  \<open>now - timestamp < windowMs\<close> on an element of the parsed array. The subtraction
  converts its operand with ToNumber: a number is itself, \<open>null\<close> is 0, \<open>true\<close> is 1
  and \<open>false\<close> is 0. The conversion of a string, an array or an object is outside the
  model (\<open>None\<close>).
\<close>

fun within_window :: "int \<Rightarrow> int \<Rightarrow> json \<Rightarrow> bool option" where
  "within_window now windowMs (JNumber t) = Some (now - t < windowMs)"
| "within_window now windowMs JNull = Some (now - 0 < windowMs)"
| "within_window now windowMs (JBool b) = Some (now - (if b then 1 else 0) < windowMs)"
| "within_window now windowMs _ = None"

fun filter_attempts :: "int \<Rightarrow> int \<Rightarrow> json list \<Rightarrow> json list option" where
  "filter_attempts now windowMs [] = Some []"
| "filter_attempts now windowMs (x # xs) =
     (case within_window now windowMs x of
        None \<Rightarrow> None
      | Some keep \<Rightarrow>
          (case filter_attempts now windowMs xs of
             None \<Rightarrow> None
           | Some ys \<Rightarrow> Some (if keep then x # ys else ys)))"

text \<open>
  \<open>checkRateLimit(key, maxAttempts, windowMs)\<close> with the value \<open>now\<close> of \<open>Date.now()\<close>
  and the session storage as arguments; it returns the answer and the new storage, or
  the exception that it throws. \<open>getItem(...) || '[]'\<close> replaces \<open>null\<close> and the empty
  string; \<open>attempts.filter\<close> on a parsed value that is not an array is a TypeError.
  The defaults of the source are \<open>maxAttempts = 5\<close> and \<open>windowMs = 60000\<close>.
\<close>

definition checkRateLimit ::
  "int \<Rightarrow> storage \<Rightarrow> jsstring \<Rightarrow> int \<Rightarrow> int \<Rightarrow> error + (bool \<times> storage)" where
  "checkRateLimit now sessionStorage key maxAttempts windowMs =
     (let rateLimitKey = js ''rate_limit_'' @ key;
          stored = (case getItem sessionStorage rateLimitKey of
                      None \<Rightarrow> js ''[]''
                    | Some s \<Rightarrow> if s \<noteq> [] then s else js ''[]'')
      in case JSON_parse stored of
           Inl e \<Rightarrow> Inl e
         | Inr (JArray parsed) \<Rightarrow>
             (case filter_attempts now windowMs parsed of
                None \<Rightarrow> Inl Unsupported
              | Some attempts \<Rightarrow>
                  if maxAttempts \<le> int (length attempts) then Inr (False, sessionStorage)
                  else Inr (True, setItem sessionStorage rateLimitKey
                                    (JSON_stringify (JArray (attempts @ [JNumber now])))))
         | Inr _ \<Rightarrow> Inl TypeError)"

section \<open>Verification: constantTimeEqual\<close>

declare constantTimeEqual_loop.simps [simp del]

lemma ucast_code_unit_inj:
  fixes x y :: code_unit
  assumes "(ucast x :: 32 word) = ucast y"
  shows "x = y"
proof -
  have "(ucast (ucast x :: 32 word) :: code_unit) = ucast (ucast y :: 32 word)"
    using assms by simp
  then show ?thesis
    by (simp add: ucast_up_ucast_id is_up)
qed

lemma xor_eq_0_iff_word:
  fixes x y :: "32 word"
  shows "x XOR y = 0 \<longleftrightarrow> x = y"
  by (metis xor_self_eq bit.xor_left_self xor.right_neutral)

text \<open>
  The accumulator is zero after the loop exactly when it was zero before and the two
  strings agree at every index the loop still visits.
\<close>

lemma constantTimeEqual_loop_zero:
  "constantTimeEqual_loop a b i r = 0 \<longleftrightarrow>
     r = 0 \<and> (\<forall>j. i \<le> j \<and> j < length a \<longrightarrow> charCodeAt a j = charCodeAt b j)"
proof (induction a b i r rule: constantTimeEqual_loop.induct)
  case (1 a b i r)
  show ?case
  proof (cases "i < length a")
    case True
    have split: "(\<forall>j. i \<le> j \<and> j < length a \<longrightarrow> charCodeAt a j = charCodeAt b j) \<longleftrightarrow>
       charCodeAt a i = charCodeAt b i \<and>
       (\<forall>j. i + 1 \<le> j \<and> j < length a \<longrightarrow> charCodeAt a j = charCodeAt b j)"
      (is "?L \<longleftrightarrow> ?R")
    proof
      assume ?L
      with True show ?R by simp
    next
      assume r: ?R
      show ?L
      proof (intro allI impI)
        fix j
        assume "i \<le> j \<and> j < length a"
        then show "charCodeAt a j = charCodeAt b j"
          using r by (cases "j = i") auto
      qed
    qed
    show ?thesis
      using True 1 split
      by (subst constantTimeEqual_loop.simps) (auto simp: or_eq_0_iff xor_eq_0_iff_word)
  next
    case False
    then show ?thesis
      by (subst constantTimeEqual_loop.simps) auto
  qed
qed

text \<open>
  Claim C9. For all strings \<open>a\<close> and \<open>b\<close>, \<open>constantTimeEqual(a, b)\<close> returns true
  if and only if \<open>a\<close> and \<open>b\<close> are the same string: equal strings give true, strings
  that differ in one code unit give false, strings of different lengths give false.
\<close>

theorem constantTimeEqual_iff_eq:
  "constantTimeEqual a b \<longleftrightarrow> a = b"
proof (cases "length a = length b")
  case False
  then show ?thesis
    by (auto simp: constantTimeEqual_def)
next
  case True
  have "(\<forall>j. j < length a \<longrightarrow> charCodeAt a j = charCodeAt b j) \<longleftrightarrow> a = b"
  proof
    assume h: "\<forall>j. j < length a \<longrightarrow> charCodeAt a j = charCodeAt b j"
    show "a = b"
    proof (rule nth_equalityI)
      show "length a = length b" by (rule True)
    next
      fix j
      assume "j < length a"
      with h True have "(ucast (a ! j) :: 32 word) = ucast (b ! j)"
        by (simp add: charCodeAt_def)
      then show "a ! j = b ! j"
        by (rule ucast_code_unit_inj)
    qed
  next
    assume "a = b"
    then show "\<forall>j. j < length a \<longrightarrow> charCodeAt a j = charCodeAt b j" by simp
  qed
  with True show ?thesis
    by (simp add: constantTimeEqual_def constantTimeEqual_loop_zero)
qed

theorem constantTimeEqual_iff_eq_witness:
  "constantTimeEqual (js ''token'') (js ''token'') \<and>
   \<not> constantTimeEqual (js ''token'') (js ''tokem'') \<and>
   \<not> constantTimeEqual (js ''token'') (js ''tokens'')"
  using constantTimeEqual_iff_eq[of "js ''token''" "js ''token''"]
    constantTimeEqual_iff_eq[of "js ''token''" "js ''tokem''"]
    constantTimeEqual_iff_eq[of "js ''token''" "js ''tokens''"]
  by (simp add: js_def cu_def)

section \<open>Verification: CartManager\<close>

text \<open>
  The product identifiers of the lines of a cart, in order, and the price that
  \<open>addItem\<close> snapshots from a product (\<open>product.price || 0\<close>).
\<close>

definition item_ids :: "cart_item list \<Rightarrow> int list" where
  "item_ids c = map (\<lambda>item. pid (product item)) c"

definition price_or_0 :: "product \<Rightarrow> int" where
  "price_or_0 p = (case price p of None \<Rightarrow> 0 | Some v \<Rightarrow> v)"

lemma find_has_id_None: "find (has_id i) c = None \<longleftrightarrow> i \<notin> set (item_ids c)"
  by (induction c) (auto simp: has_id_def item_ids_def)


lemma cart_saveCart [simp]: "cart (saveCart m) = cart m"
  by (simp add: saveCart_def)

lemma cart_addItem:
  "cart (addItem m p q) =
     (if pid p \<in> set (item_ids (cart m))
      then update_first (has_id (pid p)) (\<lambda>item. item\<lparr>quantity := quantity item + q\<rparr>) (cart m)
      else cart m @ [\<lparr>product = p, quantity = q, unitPrice = price_or_0 p\<rparr>])"
  using find_has_id_None[of "pid p" "cart m"]
  by (auto simp: addItem_def price_or_0_def split: option.splits)













lemma has_id_eq: "has_id i = (\<lambda>item. pid (product item) = i)"
  by (rule ext) (simp add: has_id_def)


text \<open>
  The persisted snapshot is \<open>in_sync\<close> when the string stored under the cart key is
  the serialisation of the cart in memory; \<open>all_positive\<close> says that every line has a
  positive quantity.
\<close>

definition in_sync :: "CartManager \<Rightarrow> bool" where
  "in_sync m = (getItem (localStorage m) cartStorageKey = Some (JSON_stringify (cart_json (cart m))))"

definition all_positive :: "cart_item list \<Rightarrow> bool" where
  "all_positive c = list_all (\<lambda>item. 0 < quantity item) c"

lemma in_sync_saveCart: "in_sync (saveCart m)"
  by (simp add: in_sync_def saveCart_def getItem_def setItem_def)

lemma cart_removeItem: "cart (removeItem m i) = filter (\<lambda>item. pid (product item) \<noteq> i) (cart m)"
  by (simp add: removeItem_def)

lemma find_Some_decomp:
  "find P xs = Some x \<Longrightarrow> \<exists>k < length xs. xs ! k = x \<and> P x \<and> (\<forall>j < k. \<not> P (xs ! j)) \<and>
      update_first P f xs = xs[k := f x]"
proof (induction xs)
  case Nil
  then show ?case by simp
next
  case (Cons a xs)
  show ?case
  proof (cases "P a")
    case True
    with Cons.prems have "a = x" by simp
    with True show ?thesis by (intro exI[of _ 0]) simp
  next
    case False
    with Cons.prems have "find P xs = Some x" by simp
    from Cons.IH[OF this] obtain k where k: "k < length xs" "xs ! k = x" "P x" "\<forall>j < k. \<not> P (xs ! j)"
      "update_first P f xs = xs[k := f x]" by blast
    show ?thesis
    proof (intro exI[of _ "Suc k"] conjI allI impI)
      fix j assume "j < Suc k"
      then show "\<not> P ((a # xs) ! j)" using k(4) False by (cases j) auto
    qed (use k False in auto)
  qed
qed

lemma filter_update_first:
  "(\<And>x. P x \<Longrightarrow> P (f x)) \<Longrightarrow>
   filter (\<lambda>x. \<not> P x) (update_first P f xs) = filter (\<lambda>x. \<not> P x) xs"
  by (induction xs) auto

lemma cart_updateQuantity:
  "cart (updateQuantity m i d) =
     (case find (has_id i) (cart m) of
        None \<Rightarrow> cart m
      | Some item \<Rightarrow>
          if quantity item + d \<le> 0 then filter (\<lambda>item. pid (product item) \<noteq> i) (cart m)
          else update_first (has_id i) (\<lambda>item. item\<lparr>quantity := quantity item + d\<rparr>) (cart m))"
proof (cases "find (has_id i) (cart m)")
  case None
  then show ?thesis by (simp add: updateQuantity_def)
next
  case (Some item)
  have "filter (\<lambda>x. \<not> has_id i x)
          (update_first (has_id i) (\<lambda>item. item\<lparr>quantity := quantity item + d\<rparr>) (cart m)) =
        filter (\<lambda>x. \<not> has_id i x) (cart m)"
    by (rule filter_update_first) (simp add: has_id_def)
  then show ?thesis using Some
    by (simp add: updateQuantity_def Let_def cart_removeItem has_id_eq)
qed

lemma in_sync_updateQuantity:
  "find (has_id i) (cart m) \<noteq> None \<or> in_sync m \<Longrightarrow> in_sync (updateQuantity m i d)"
  by (auto simp: updateQuantity_def Let_def removeItem_def in_sync_saveCart split: option.splits)

lemma all_positive_update_first:
  assumes "all_positive c" and "find P c = Some item" and "0 < quantity item + d"
  shows "all_positive (update_first P (\<lambda>item. item\<lparr>quantity := quantity item + d\<rparr>) c)"
proof -
  from find_Some_decomp[OF assms(2), of "\<lambda>item. item\<lparr>quantity := quantity item + d\<rparr>"]
  obtain k where k: "update_first P (\<lambda>item. item\<lparr>quantity := quantity item + d\<rparr>) c =
       c[k := item\<lparr>quantity := quantity item + d\<rparr>]" by blast
  have "set (c[k := item\<lparr>quantity := quantity item + d\<rparr>]) \<subseteq>
          insert (item\<lparr>quantity := quantity item + d\<rparr>) (set c)"
    by (rule set_update_subset_insert)
  then show ?thesis using assms(1,3) unfolding k all_positive_def list_all_iff by auto
qed

text \<open>
  A manager with an empty cart and empty storage, two products, and the manager after
  \<open>addItem(oud, 2)\<close> and \<open>addItem(musk, 1)\<close>, for the examples.
\<close>

definition empty_manager :: CartManager where
  "empty_manager = \<lparr>cart = [], localStorage = Map.empty\<rparr>"

definition oud :: product where
  "oud = \<lparr>pid = 7, price = Some 120, others = []\<rparr>"

definition musk :: product where
  "musk = \<lparr>pid = 9, price = None, others = []\<rparr>"

definition two_lines :: CartManager where
  "two_lines = addItem (addItem empty_manager oud 2) musk 1"

lemma cart_two_lines:
  "cart two_lines =
     [\<lparr>product = oud, quantity = 2, unitPrice = 120\<rparr>,
      \<lparr>product = musk, quantity = 1, unitPrice = 0\<rparr>]"
  by (simp add: two_lines_def cart_addItem item_ids_def empty_manager_def oud_def musk_def
      price_or_0_def)




text \<open>
  Claim C5, as the code has it. \<open>addItem\<close> does not validate its quantity: called with
  a quantity that is not positive it persists a line whose quantity is not positive.
  When every line of the cart has a positive quantity, this still holds after
  \<open>removeItem\<close>, \<open>updateQuantity\<close>, \<open>clearCart\<close> and after \<open>addItem\<close> with a positive
  quantity. After \<open>removeItem\<close>, \<open>clearCart\<close>, \<open>addItem\<close> with a positive quantity, and
  \<open>updateQuantity\<close> of an identifier that is in the cart, the persisted snapshot is the
  serialisation of that cart. \<open>updateQuantity\<close> of an identifier that is not in the
  cart writes nothing: the cart and the storage are as they were before the call.
\<close>

theorem positive_quantities_preserved:
  "all_positive (cart m) \<Longrightarrow>
     (0 < q \<longrightarrow> all_positive (cart (addItem m p q)) \<and> in_sync (addItem m p q)) \<and>
     all_positive (cart (removeItem m i)) \<and> in_sync (removeItem m i) \<and>
     all_positive (cart (updateQuantity m i d)) \<and>
     (find (has_id i) (cart m) \<noteq> None \<longrightarrow> in_sync (updateQuantity m i d)) \<and>
     (find (has_id i) (cart m) = None \<longrightarrow> updateQuantity m i d = m) \<and>
     all_positive (cart (clearCart m)) \<and> in_sync (clearCart m)"
proof (intro conjI impI)
  assume pos: "all_positive (cart m)"
  show "all_positive (cart (removeItem m i))" using pos
    by (simp add: cart_removeItem all_positive_def list_all_iff)
  show "in_sync (removeItem m i)" by (simp add: removeItem_def in_sync_saveCart)
  show "all_positive (cart (clearCart m))" by (simp add: clearCart_def all_positive_def)
  show "in_sync (clearCart m)" by (simp add: clearCart_def in_sync_saveCart)
  show "all_positive (cart (updateQuantity m i d))"
  proof (cases "find (has_id i) (cart m)")
    case None
    then show ?thesis using pos by (simp add: cart_updateQuantity)
  next
    case (Some item)
    then show ?thesis using pos all_positive_update_first[OF pos Some, of d]
      by (auto simp: cart_updateQuantity all_positive_def list_all_iff)
  qed
  { assume "find (has_id i) (cart m) \<noteq> None" then show "in_sync (updateQuantity m i d)"
      by (intro in_sync_updateQuantity) simp }
  { assume "find (has_id i) (cart m) = None" then show "updateQuantity m i d = m"
      by (simp add: updateQuantity_def) }
  { assume q: "0 < q"
    show "in_sync (addItem m p q)" by (simp add: addItem_def in_sync_saveCart split: option.splits)
    show "all_positive (cart (addItem m p q))"
    proof (cases "find (has_id (pid p)) (cart m)")
      case None
      then show ?thesis using pos q by (simp add: addItem_def all_positive_def)
    next
      case (Some item)
      then have "item \<in> set (cart m)" by (auto simp: find_Some_iff)
      with pos have "0 < quantity item + q" using q by (auto simp: all_positive_def list_all_iff)
      from all_positive_update_first[OF pos Some this] Some show ?thesis
        by (simp add: addItem_def)
    qed }
qed

theorem positive_quantities_preserved_witness:
  "cart two_lines =
     [\<lparr>product = oud, quantity = 2, unitPrice = 120\<rparr>,
      \<lparr>product = musk, quantity = 1, unitPrice = 0\<rparr>] \<and>
   all_positive (cart two_lines) \<and> (0::int) < 4 \<and>
   cart (addItem two_lines musk 4) =
     [\<lparr>product = oud, quantity = 2, unitPrice = 120\<rparr>,
      \<lparr>product = musk, quantity = 5, unitPrice = 0\<rparr>] \<and>
   all_positive (cart (addItem two_lines musk 4)) \<and> in_sync (addItem two_lines musk 4) \<and>
   cart (removeItem two_lines 7) = [\<lparr>product = musk, quantity = 1, unitPrice = 0\<rparr>] \<and>
   all_positive (cart (removeItem two_lines 7)) \<and> in_sync (removeItem two_lines 7) \<and>
   find (has_id 7) (cart two_lines) \<noteq> None \<and>
   cart (updateQuantity two_lines 7 (- 1)) =
     [\<lparr>product = oud, quantity = 1, unitPrice = 120\<rparr>,
      \<lparr>product = musk, quantity = 1, unitPrice = 0\<rparr>] \<and>
   all_positive (cart (updateQuantity two_lines 7 (- 1))) \<and>
   in_sync (updateQuantity two_lines 7 (- 1)) \<and>
   find (has_id 9) (cart two_lines) \<noteq> None \<and>
   cart (updateQuantity two_lines 9 (- 1)) =
     [\<lparr>product = oud, quantity = 2, unitPrice = 120\<rparr>] \<and>
   all_positive (cart (updateQuantity two_lines 9 (- 1))) \<and>
   in_sync (updateQuantity two_lines 9 (- 1)) \<and>
   find (has_id 5) (cart two_lines) = None \<and>
   updateQuantity two_lines 5 1 = two_lines \<and>
   cart (clearCart two_lines) = [] \<and> in_sync (clearCart two_lines)"
  using positive_quantities_preserved[of two_lines 4 musk 7 "- 1"]
    positive_quantities_preserved[of two_lines 4 musk 9 "- 1"]
    positive_quantities_preserved[of two_lines 4 musk 5 1]
  by (simp add: cart_two_lines cart_addItem cart_updateQuantity cart_removeItem item_ids_def
      oud_def musk_def has_id_def price_or_0_def all_positive_def clearCart_def)

text \<open>
  Claim C5 as stated fails: after \<open>addItem(oud, 1)\<close> and \<open>addItem(oud, -1)\<close> on an
  empty cart, the cart and its persisted snapshot hold a line with quantity 0.
\<close>

theorem addItem_persists_nonpositive_quantity:
  "cart (addItem (addItem empty_manager oud 1) oud (- 1)) =
     [\<lparr>product = oud, quantity = 0, unitPrice = 120\<rparr>] \<and>
   getItem (localStorage (addItem (addItem empty_manager oud 1) oud (- 1))) cartStorageKey =
     Some (JSON_stringify (cart_json [\<lparr>product = oud, quantity = 0, unitPrice = 120\<rparr>])) \<and>
   \<not> all_positive (cart (addItem (addItem empty_manager oud 1) oud (- 1)))"
proof -
  have c: "cart (addItem (addItem empty_manager oud 1) oud (- 1)) =
     [\<lparr>product = oud, quantity = 0, unitPrice = 120\<rparr>]"
    by (simp add: cart_addItem item_ids_def empty_manager_def oud_def has_id_def price_or_0_def)
  have "in_sync (addItem (addItem empty_manager oud 1) oud (- 1))"
    by (simp add: addItem_def in_sync_saveCart split: option.splits)
  then show ?thesis
    unfolding in_sync_def c by (simp add: all_positive_def)
qed

text \<open>
  Claim C6. \<open>updateQuantity(productId, delta)\<close> leaves the cart and the storage as
  they are when no line has the identifier. Otherwise it adds \<open>delta\<close> to the quantity
  of the first line with the identifier: when the result is at most 0, every line with
  the identifier is removed, so \<open>getItems()\<close> no longer contains it; when the result is
  positive, that line alone changes. In both cases the new cart is persisted.
\<close>

theorem updateQuantity_behaviour:
  "(find (has_id i) (cart m) = None \<longrightarrow> updateQuantity m i d = m) \<and>
   (\<forall>item. find (has_id i) (cart m) = Some item \<and> quantity item + d \<le> 0 \<longrightarrow>
      cart (updateQuantity m i d) = filter (\<lambda>item. pid (product item) \<noteq> i) (cart m) \<and>
      i \<notin> set (item_ids (getItems (updateQuantity m i d))) \<and>
      in_sync (updateQuantity m i d)) \<and>
   (\<forall>item. find (has_id i) (cart m) = Some item \<and> 0 < quantity item + d \<longrightarrow>
      (\<exists>k < length (cart m). cart m ! k = item \<and> (\<forall>j < k. pid (product (cart m ! j)) \<noteq> i) \<and>
         cart (updateQuantity m i d) = (cart m)[k := item\<lparr>quantity := quantity item + d\<rparr>]) \<and>
      in_sync (updateQuantity m i d))"
proof (intro conjI allI impI)
  assume "find (has_id i) (cart m) = None"
  then show "updateQuantity m i d = m" by (simp add: updateQuantity_def)
next
  fix item
  assume h: "find (has_id i) (cart m) = Some item \<and> quantity item + d \<le> 0"
  then show c: "cart (updateQuantity m i d) = filter (\<lambda>item. pid (product item) \<noteq> i) (cart m)"
    by (simp add: cart_updateQuantity)
  then show "i \<notin> set (item_ids (getItems (updateQuantity m i d)))"
    by (auto simp: getItems_def item_ids_def)
  from h show "in_sync (updateQuantity m i d)" by (intro in_sync_updateQuantity) simp
next
  fix item
  assume h: "find (has_id i) (cart m) = Some item \<and> 0 < quantity item + d"
  then have f: "find (has_id i) (cart m) = Some item" by simp
  from find_Some_decomp[OF f, of "\<lambda>item. item\<lparr>quantity := quantity item + d\<rparr>"]
  obtain k where k: "k < length (cart m)" "cart m ! k = item" "\<forall>j < k. \<not> has_id i (cart m ! j)"
    "update_first (has_id i) (\<lambda>item. item\<lparr>quantity := quantity item + d\<rparr>) (cart m) =
       (cart m)[k := item\<lparr>quantity := quantity item + d\<rparr>]" by blast
  show "\<exists>k < length (cart m). cart m ! k = item \<and> (\<forall>j < k. pid (product (cart m ! j)) \<noteq> i) \<and>
         cart (updateQuantity m i d) = (cart m)[k := item\<lparr>quantity := quantity item + d\<rparr>]"
    using k h by (intro exI[of _ k]) (simp add: cart_updateQuantity has_id_def)
  from h show "in_sync (updateQuantity m i d)" by (intro in_sync_updateQuantity) simp
qed

theorem updateQuantity_behaviour_witness:
  "find (has_id 9) (cart (addItem empty_manager oud 2)) = None \<and>
   updateQuantity (addItem empty_manager oud 2) 9 1 = addItem empty_manager oud 2 \<and>
   find (has_id 7) (cart (addItem empty_manager oud 2)) =
     Some \<lparr>product = oud, quantity = 2, unitPrice = 120\<rparr> \<and>
   cart (updateQuantity (addItem empty_manager oud 2) 7 (- 2)) = [] \<and>
   7 \<notin> set (item_ids (getItems (updateQuantity (addItem empty_manager oud 2) 7 (- 2)))) \<and>
   in_sync (updateQuantity (addItem empty_manager oud 2) 7 (- 2)) \<and>
   cart (updateQuantity (addItem empty_manager oud 2) 7 1) =
     [\<lparr>product = oud, quantity = 3, unitPrice = 120\<rparr>] \<and>
   in_sync (updateQuantity (addItem empty_manager oud 2) 7 1)"
  using updateQuantity_behaviour[of 9 "addItem empty_manager oud 2" 1]
    updateQuantity_behaviour[of 7 "addItem empty_manager oud 2" "- 2"]
    updateQuantity_behaviour[of 7 "addItem empty_manager oud 2" 1]
  by (simp add: cart_addItem item_ids_def empty_manager_def oud_def has_id_def price_or_0_def)

section \<open>Verification: loadCart\<close>

lemma JSON_parse_empty: "JSON_parse [] = Inl SyntaxError"
  by (simp add: JSON_parse_def)

lemma JSON_parse_empty_array: "JSON_parse (js ''[]'') = Inr (JArray [])"
  by code_simp

text \<open>
  Claim C2, as the code has it. \<open>loadCart()\<close> returns an empty cart when no snapshot
  is stored under the cart key (or the stored string is empty). It has no exception
  handler: a stored string that is not empty and fails to parse makes \<open>JSON.parse\<close>
  throw a SyntaxError, which leaves \<open>loadCart\<close> and reaches the caller.
\<close>

theorem loadCart_absent_or_unparsable:
  "(getItem ls cartStorageKey = None \<or> getItem ls cartStorageKey = Some [] \<longrightarrow>
      loadCart ls = Inr (JArray [])) \<and>
   (\<forall>s. getItem ls cartStorageKey = Some s \<and> s \<noteq> [] \<and> JSON_parse s = Inl SyntaxError \<longrightarrow>
      loadCart ls = Inl SyntaxError)"
  by (auto simp: loadCart_def)

theorem loadCart_absent_or_unparsable_witness:
  "getItem Map.empty cartStorageKey = None \<and> loadCart Map.empty = Inr (JArray []) \<and>
   getItem (setItem Map.empty cartStorageKey (js ''{broken'')) cartStorageKey = Some (js ''{broken'') \<and>
   js ''{broken'' \<noteq> [] \<and> JSON_parse (js ''{broken'') = Inl SyntaxError \<and>
   loadCart (setItem Map.empty cartStorageKey (js ''{broken'')) = Inl SyntaxError"
proof -
  have p: "JSON_parse (js ''{broken'') = Inl SyntaxError" by code_simp
  have n: "js ''{broken'' \<noteq> []" by (simp add: js_def)
  show ?thesis
    using loadCart_absent_or_unparsable[of Map.empty]
      loadCart_absent_or_unparsable[of "setItem Map.empty cartStorageKey (js ''{broken'')"] p n
    by (simp add: getItem_def setItem_def)
qed

text \<open>
  Claim C2 as stated fails: with \<open>{broken\<close> stored under the cart key, \<open>loadCart()\<close>
  throws instead of returning an empty cart.
\<close>

theorem loadCart_throws_on_malformed:
  "JSON_parse (js ''{broken'') = Inl SyntaxError \<and>
   loadCart (setItem Map.empty cartStorageKey (js ''{broken'')) = Inl SyntaxError"
proof -
  have p: "JSON_parse (js ''{broken'') = Inl SyntaxError" by code_simp
  have n: "js ''{broken'' \<noteq> []" by (simp add: js_def)
  show ?thesis using p n by (simp add: loadCart_def getItem_def setItem_def)
qed

text \<open>
  Claim C10. \<open>loadCart()\<close> does not validate the shape of a parsed snapshot: whenever
  the string stored under the cart key parses as JSON, the parsed value is what
  \<open>loadCart\<close> returns and the constructor keeps as the cart; a stored \<open>42\<close> yields the
  number 42.
\<close>

theorem loadCart_no_validation:
  "getItem ls cartStorageKey = Some s \<Longrightarrow> JSON_parse s = Inr v \<Longrightarrow> loadCart ls = Inr v"
  by (auto simp: loadCart_def JSON_parse_empty)

theorem loadCart_no_validation_witness:
  "getItem (setItem Map.empty cartStorageKey (js ''42'')) cartStorageKey = Some (js ''42'') \<and>
   JSON_parse (js ''42'') = Inr (JNumber 42) \<and>
   loadCart (setItem Map.empty cartStorageKey (js ''42'')) = Inr (JNumber 42)"
proof -
  have p: "JSON_parse (js ''42'') = Inr (JNumber 42)" by code_simp
  have g: "getItem (setItem Map.empty cartStorageKey (js ''42'')) cartStorageKey = Some (js ''42'')"
    by (simp add: getItem_def setItem_def)
  from loadCart_no_validation[OF g p] g p show ?thesis by simp
qed

section \<open>Verification: checkRateLimit\<close>

text \<open>
  Claim C8, as the code has it. \<open>checkRateLimit\<close> treats an absent key (and an empty
  stored string) as an empty sequence of attempts. It has no exception handler: a
  stored string that is not empty and is not valid JSON makes \<open>JSON.parse\<close> throw a
  SyntaxError, which reaches the caller.
\<close>

theorem checkRateLimit_absent_or_unparsable:
  "(getItem ss (js ''rate_limit_'' @ key) = None \<or> getItem ss (js ''rate_limit_'' @ key) = Some [] \<longrightarrow>
      checkRateLimit now ss key maxAttempts windowMs =
        (if maxAttempts \<le> 0 then Inr (False, ss)
         else Inr (True, setItem ss (js ''rate_limit_'' @ key) (JSON_stringify (JArray [JNumber now]))))) \<and>
   (\<forall>s. getItem ss (js ''rate_limit_'' @ key) = Some s \<and> s \<noteq> [] \<and> JSON_parse s = Inl SyntaxError \<longrightarrow>
      checkRateLimit now ss key maxAttempts windowMs = Inl SyntaxError)"
  by (auto simp: checkRateLimit_def JSON_parse_empty_array)

theorem checkRateLimit_absent_or_unparsable_witness:
  "getItem Map.empty (js ''rate_limit_'' @ js ''login'') = None \<and>
   checkRateLimit 1000 Map.empty (js ''login'') 5 60000 =
     Inr (True, setItem Map.empty (js ''rate_limit_'' @ js ''login'') (js ''[1000]'')) \<and>
   getItem (setItem Map.empty (js ''rate_limit_'' @ js ''login'') (js ''broken'')) (js ''rate_limit_'' @ js ''login'')
     = Some (js ''broken'') \<and>
   js ''broken'' \<noteq> [] \<and> JSON_parse (js ''broken'') = Inl SyntaxError \<and> 
   checkRateLimit 1000 (setItem Map.empty (js ''rate_limit_'' @ js ''login'') (js ''broken'')) (js ''login'') 5 60000
     = Inl SyntaxError"
proof -
  have p: "JSON_parse (js ''broken'') = Inl SyntaxError" by code_simp
  have n: "js ''broken'' \<noteq> []" by (simp add: js_def)
  have s: "JSON_stringify (JArray [JNumber 1000]) = js ''[1000]''" by code_simp
  show ?thesis
    using checkRateLimit_absent_or_unparsable[of Map.empty "js ''login''" 1000 5 60000]
      checkRateLimit_absent_or_unparsable[of "setItem Map.empty (js ''rate_limit_'' @ js ''login'') (js ''broken'')" "js ''login''" 1000 5 60000]
      p n s
    by (simp add: getItem_def setItem_def)
qed

text \<open>
  Claim C8 as stated fails: with \<open>broken\<close> stored for the key, \<open>checkRateLimit\<close> throws
  instead of starting from an empty sequence.
\<close>

theorem checkRateLimit_throws_on_malformed:
  "JSON_parse (js ''broken'') = Inl SyntaxError \<and>
   checkRateLimit 1000 (setItem Map.empty (js ''rate_limit_login'') (js ''broken'')) (js ''login'') 5 60000
     = Inl SyntaxError"
proof -
  have p: "JSON_parse (js ''broken'') = Inl SyntaxError" by code_simp
  have n: "js ''broken'' \<noteq> []" by (simp add: js_def)
  have k: "js ''rate_limit_'' @ js ''login'' = js ''rate_limit_login''" by (simp add: js_def)
  show ?thesis using p n by (simp add: checkRateLimit_def k getItem_def setItem_def)
qed

section \<open>Verification: JSON.parse after JSON.stringify on arrays of integers\<close>

declare to_radix.simps [simp del]

lemma unat_of_nat16: "x < 65536 \<Longrightarrow> unat (of_nat x :: code_unit) = x"
  by (simp add: unat_of_nat)

lemma unat_digit_char:
  assumes "d < 10"
  shows "unat (digit_char d) = 48 + d"
proof -
  from assms have "digit_char d = of_nat (48 + d)"
    by (simp add: digit_char_def)
  moreover have "unat (of_nat (48 + d) :: code_unit) = 48 + d"
    using assms by (intro unat_of_nat16) simp
  ultimately show ?thesis by (simp only:)
qed

lemma is_digit_unat: "is_digit c \<longleftrightarrow> 48 \<le> unat c \<and> unat c \<le> 57"
  by (simp add: is_digit_def word_le_nat_alt)

lemma is_digit_digit_char: "d < 10 \<Longrightarrow> is_digit (digit_char d)"
  by (simp add: is_digit_unat unat_digit_char)

lemma digit_val_digit_char: "d < 10 \<Longrightarrow> digit_val (digit_char d) = d"
  by (simp add: digit_val_def unat_digit_char)

lemma digit_char_zero_iff: "d < 10 \<Longrightarrow> digit_char d = cu CHR ''0'' \<longleftrightarrow> d = 0"
  by (simp add: word_unat_eq_iff unat_digit_char cu_def)

lemma to_radix_10_step:
  "to_radix 10 n = (if n < 10 then [digit_char n] else to_radix 10 (n div 10) @ [digit_char (n mod 10)])"
  by (subst to_radix.simps) simp

lemma to_radix_10_digits: "list_all is_digit (to_radix 10 n)"
proof (induction n rule: less_induct)
  case (less n)
  show ?case
  proof (cases "n < 10")
    case True
    then show ?thesis by (subst to_radix_10_step) (simp add: is_digit_digit_char)
  next
    case False
    then have "n div 10 < n" by simp
    from less[OF this] False show ?thesis
      by (subst to_radix_10_step) (simp add: is_digit_digit_char)
  qed
qed

lemma to_radix_10_nonempty: "to_radix 10 n \<noteq> []"
  by (subst to_radix_10_step) simp

lemma digits_val_snoc: "digits_val (ds @ [c]) = 10 * digits_val ds + digit_val c"
  by (simp add: digits_val_def)

lemma to_radix_10_val: "digits_val (to_radix 10 n) = n"
proof (induction n rule: less_induct)
  case (less n)
  show ?case
  proof (cases "n < 10")
    case True
    then show ?thesis
      by (subst to_radix_10_step) (simp add: digits_val_def digit_val_digit_char)
  next
    case False
    then have "n div 10 < n" by simp
    from less[OF this] False show ?thesis
      by (subst to_radix_10_step) (simp add: digits_val_snoc digit_val_digit_char)
  qed
qed

lemma to_radix_10_leading: "hd (to_radix 10 n) = cu CHR ''0'' \<Longrightarrow> length (to_radix 10 n) = 1"
proof (induction n rule: less_induct)
  case (less n)
  show ?case
  proof (cases "n < 10")
    case True
    then show ?thesis by (subst to_radix_10_step) simp
  next
    case False
    then have lt: "n div 10 < n" by simp
    have ne: "to_radix 10 (n div 10) \<noteq> []" by (rule to_radix_10_nonempty)
    from less.prems False ne have h: "hd (to_radix 10 (n div 10)) = cu CHR ''0''"
      by (subst (asm) to_radix_10_step) simp
    from less.IH[OF lt h] have "length (to_radix 10 (n div 10)) = 1" .
    then obtain c where c: "to_radix 10 (n div 10) = [c]" by (cases "to_radix 10 (n div 10)") auto
    with h have "c = cu CHR ''0''" by simp
    have "digits_val (to_radix 10 (n div 10)) = n div 10" by (rule to_radix_10_val)
    with c \<open>c = cu CHR ''0''\<close> have "n div 10 = 0" by (simp add: digits_val_def digit_val_def cu_def)
    with False show ?thesis by simp
  qed
qed

text \<open>The scanner on the decimal text of an integer that a separator follows.\<close>

lemma takeWhile_digits:
  "list_all is_digit ds \<Longrightarrow> \<not> is_digit c \<Longrightarrow> takeWhile is_digit (ds @ c # rest) = ds"
  by (induction ds) auto

lemma dropWhile_digits:
  "list_all is_digit ds \<Longrightarrow> \<not> is_digit c \<Longrightarrow> dropWhile is_digit (ds @ c # rest) = c # rest"
  by (induction ds) auto

text \<open>The characters that follow a number in the text of an array of numbers.\<close>

definition is_separator :: "code_unit \<Rightarrow> bool" where
  "is_separator c = (c = cu CHR '','' \<or> c = cu CHR '']'')"

lemma separator_facts:
  "is_separator c \<Longrightarrow> \<not> is_digit c \<and> c \<noteq> cu CHR ''.'' \<and> c \<noteq> cu CHR ''e'' \<and> c \<noteq> cu CHR ''E''"
  by (auto simp: is_separator_def is_digit_def cu_def)

lemma minus_not_digit: "\<not> is_digit (cu CHR ''-'')"
  by (simp add: is_digit_def cu_def)

lemma scan_number_toString:
  assumes "is_separator c"
  shows "scan_number (toString_radix 10 t @ c # rest) = Inr (t, c # rest)"
proof -
  define n where "n = (if t < 0 then nat (- t) else nat t)"
  define ds where "ds = to_radix 10 n"
  have d: "list_all is_digit ds" and ne: "ds \<noteq> []" and v: "digits_val ds = n"
    and ld: "hd ds = cu CHR ''0'' \<longrightarrow> length ds = 1"
    using to_radix_10_digits to_radix_10_nonempty to_radix_10_val to_radix_10_leading
    by (auto simp: ds_def)
  from d ne have hdd: "is_digit (hd ds)" by (cases ds) auto
  then have hdm: "hd ds \<noteq> cu CHR ''-''" using minus_not_digit by auto
  note sep = separator_facts[OF assms]
  have tw: "takeWhile is_digit (ds @ c # rest) = ds" and dw: "dropWhile is_digit (ds @ c # rest) = c # rest"
    using d sep by (simp_all add: takeWhile_digits dropWhile_digits)
  show ?thesis
  proof (cases "t < 0")
    case True
    then have s: "toString_radix 10 t = cu CHR ''-'' # ds" by (simp add: toString_radix_def ds_def n_def)
    show ?thesis using True ld sep v ne
      by (simp add: s scan_number_def Let_def tw dw n_def)
  next
    case False
    then have s: "toString_radix 10 t = ds" by (simp add: toString_radix_def ds_def n_def)
    have "hd (ds @ c # rest) \<noteq> cu CHR ''-''" using ne hdm by simp
    then show ?thesis using False ld sep v ne
      by (simp add: s scan_number_def Let_def tw dw n_def)
  qed
qed

declare tokenize.simps [simp del]

lemma number_start_facts:
  "c = cu CHR ''-'' \<or> is_digit c \<Longrightarrow>
   \<not> is_ws c \<and> c \<noteq> cu CHR ''{'' \<and> c \<noteq> cu CHR ''}'' \<and> c \<noteq> cu CHR ''['' \<and> c \<noteq> cu CHR '']'' \<and>
   c \<noteq> cu CHR '','' \<and> c \<noteq> cu CHR '':'' \<and> c \<noteq> 0x22"
  by (auto simp: is_ws_def is_digit_def cu_def)

lemma toString_radix_10_start:
  "\<exists>d ds. toString_radix 10 t = d # ds \<and> (d = cu CHR ''-'' \<or> is_digit d)"
proof (cases "t < 0")
  case True
  then show ?thesis by (simp add: toString_radix_def)
next
  case False
  have "to_radix 10 (nat t) \<noteq> []" by (rule to_radix_10_nonempty)
  then obtain d ds where d: "to_radix 10 (nat t) = d # ds" by (cases "to_radix 10 (nat t)") auto
  have "list_all is_digit (to_radix 10 (nat t))" by (rule to_radix_10_digits)
  with d have "is_digit d" by simp
  with d False show ?thesis by (simp add: toString_radix_def)
qed

lemma scan_number_text:
  assumes "is_separator c"
  shows "tokenize (toString_radix 10 t @ c # rest) = cons_token (TNum t) (tokenize (c # rest))"
proof -
  from toString_radix_10_start obtain d ds where
    s: "toString_radix 10 t = d # ds" and d: "d = cu CHR ''-'' \<or> is_digit d" by blast
  have n: "scan_number (d # ds @ c # rest) = Inr (t, c # rest)"
    using scan_number_toString[OF assms, of t rest] by (simp add: s)
  have "tokenize (d # (ds @ c # rest)) = cons_token (TNum t) (tokenize (c # rest))"
    using number_start_facts[OF d] d n
    by (simp add: tokenize.simps(2)[of d "ds @ c # rest"])
  then show ?thesis
    by (simp add: s)
qed

lemma tokenize_punctuation:
  "tokenize (cu CHR ''['' # rest) = cons_token TLBrack (tokenize rest)"
  "tokenize (cu CHR '']'' # rest) = cons_token TRBrack (tokenize rest)"
  "tokenize (cu CHR '','' # rest) = cons_token TComma (tokenize rest)"
  by (subst tokenize.simps, simp add: is_ws_def cu_def)+

text \<open>The tokens of a comma-separated list of integers.\<close>

fun number_tokens :: "int list \<Rightarrow> token list" where
  "number_tokens [] = []"
| "number_tokens [t] = [TNum t]"
| "number_tokens (t # u # ts) = TNum t # TComma # number_tokens (u # ts)"

lemma tokenize_numbers:
  "tokenize (join (js '','') (map (toString_radix 10) (t # ts)) @ js '']'') =
     Inr (number_tokens (t # ts) @ [TRBrack])"
proof (induction ts arbitrary: t)
  case Nil
  have "is_separator (cu CHR '']'')" by (simp add: is_separator_def)
  from scan_number_text[OF this, of t "[]"] show ?case
    by (simp add: js_def tokenize_punctuation tokenize.simps(1) cons_token_def)
next
  case (Cons u ts)
  have "is_separator (cu CHR '','')" by (simp add: is_separator_def)
  from scan_number_text[OF this, of t "join (js '','') (map (toString_radix 10) (u # ts)) @ js '']''"]
    Cons[of u]
  show ?case
    by (simp add: js_def tokenize_punctuation cons_token_def)
qed

lemma run_numbers:
  "run (PDone (JNumber t), FArray vs # st) (TComma # number_tokens (u # ts) @ [TRBrack]) =
   run (PDone (JArray (rev vs @ map JNumber (t # u # ts))), st) []"
proof (induction ts arbitrary: t u vs)
  case Nil
  show ?case by simp
next
  case (Cons w ts)
  from Cons[of u "JNumber t # vs" w] show ?case by simp
qed

lemma JSON_parse_numbers:
  "JSON_parse (JSON_stringify (JArray (map JNumber ts))) = Inr (JArray (map JNumber ts))"
proof (cases ts)
  case Nil
  then show ?thesis
    by (simp add: JSON_parse_def js_def tokenize_punctuation tokenize.simps(1) cons_token_def)
next
  case (Cons t ts')
  have l: "tokenize (JSON_stringify (JArray (map JNumber ts))) = Inr (TLBrack # number_tokens (t # ts') @ [TRBrack])"
    using tokenize_numbers[of t ts']
    by (simp add: Cons js_def tokenize_punctuation cons_token_def comp_def)
  have r: "run (PValue, []) (TLBrack # number_tokens (t # ts') @ [TRBrack]) =
           Some (PDone (JArray (map JNumber (t # ts'))), [])"
  proof (cases ts')
    case Nil
    then show ?thesis by simp
  next
    case (Cons u us)
    with run_numbers[of t "[]" "[]" u us] show ?thesis by simp
  qed
  show ?thesis unfolding JSON_parse_def l using r Cons by simp
qed

text \<open>The string that \<open>checkRateLimit\<close> stores for a sequence of timestamps.\<close>

definition attempts_text :: "int list \<Rightarrow> jsstring" where
  "attempts_text ts = JSON_stringify (JArray (map JNumber ts))"

lemma attempts_text_nonempty: "attempts_text ts \<noteq> []"
  by (simp add: attempts_text_def js_def)

lemma filter_attempts_numbers:
  "filter_attempts now w (map JNumber ts) = Some (map JNumber (filter (\<lambda>t. now - t < w) ts))"
  by (induction ts) auto

lemma checkRateLimit_stored:
  assumes "getItem ss (js ''rate_limit_'' @ key) = Some (attempts_text ts)"
  shows "checkRateLimit now ss key maxAttempts windowMs =
     (if maxAttempts \<le> int (length (filter (\<lambda>t. now - t < windowMs) ts)) then Inr (False, ss)
      else Inr (True, setItem ss (js ''rate_limit_'' @ key)
                        (attempts_text (filter (\<lambda>t. now - t < windowMs) ts @ [now]))))"
  using assms attempts_text_nonempty[of ts]
  by (simp add: checkRateLimit_def Let_def JSON_parse_numbers[folded attempts_text_def]
      filter_attempts_numbers)
     (simp add: attempts_text_def)

section \<open>Verification: the sliding window of checkRateLimit\<close>
lemma attempts_text_eval:
  "attempts_text [0] = js ''[0]''"
  "attempts_text [0, 100] = js ''[0,100]''"
  "attempts_text [100, 1050] = js ''[100,1050]''"
  "attempts_text [1000] = js ''[1000]''"
  "attempts_text [1000, 1200] = js ''[1000,1200]''"
  "attempts_text [1000, 1200, 1400] = js ''[1000,1200,1400]''"
  "attempts_text [1200, 1400, 2100] = js ''[1200,1400,2100]''"
  unfolding attempts_text_def by code_simp+

text \<open>
  Claim C3. For a key with no recorded attempts, four calls of
  \<open>checkRateLimit(key, 3, 1000)\<close> at times \<open>t1 \<le> t2 \<le> t3 \<le> t4\<close> within one window
  (\<open>t4 - t1 < 1000\<close>) return true, true, true, false. The rejecting call leaves the
  storage as it was: the stored sequence is still \<open>[t1, t2, t3]\<close>. A call at a time
  \<open>t5\<close> when the window of the first attempt has elapsed (\<open>t5 - t1 \<ge> 1000\<close>) returns
  true again.
\<close>

theorem checkRateLimit_four_calls:
  assumes absent: "getItem ss (js ''rate_limit_'' @ key) = None"
    and order: "t1 \<le> t2" "t2 \<le> t3" "t3 \<le> t4"
    and rapid: "t4 - t1 < 1000"
    and later: "1000 \<le> t5 - t1"
  shows "checkRateLimit t1 ss key 3 1000 =
           Inr (True, setItem ss (js ''rate_limit_'' @ key) (attempts_text [t1])) \<and>
         checkRateLimit t2 (setItem ss (js ''rate_limit_'' @ key) (attempts_text [t1])) key 3 1000 =
           Inr (True, setItem ss (js ''rate_limit_'' @ key) (attempts_text [t1, t2])) \<and>
         checkRateLimit t3 (setItem ss (js ''rate_limit_'' @ key) (attempts_text [t1, t2])) key 3 1000 =
           Inr (True, setItem ss (js ''rate_limit_'' @ key) (attempts_text [t1, t2, t3])) \<and>
         checkRateLimit t4 (setItem ss (js ''rate_limit_'' @ key) (attempts_text [t1, t2, t3])) key 3 1000 =
           Inr (False, setItem ss (js ''rate_limit_'' @ key) (attempts_text [t1, t2, t3])) \<and>
         checkRateLimit t5 (setItem ss (js ''rate_limit_'' @ key) (attempts_text [t1, t2, t3])) key 3 1000 =
           Inr (True, setItem ss (js ''rate_limit_'' @ key)
                        (attempts_text (filter (\<lambda>t. t5 - t < 1000) [t2, t3] @ [t5])))"
proof -
  let ?k = "js ''rate_limit_'' @ key"
  have 1: "checkRateLimit t1 ss key 3 1000 = Inr (True, setItem ss ?k (attempts_text [t1]))"
    using absent
    by (simp add: checkRateLimit_def JSON_parse_empty_array attempts_text_def)
  have g: "\<And>ts. getItem (setItem ss ?k (attempts_text ts)) ?k = Some (attempts_text ts)"
    by (simp add: getItem_def setItem_def)
  have u: "\<And>ts us. setItem (setItem ss ?k (attempts_text ts)) ?k us = setItem ss ?k us"
    by (simp add: setItem_def)
  have 2: "checkRateLimit t2 (setItem ss ?k (attempts_text [t1])) key 3 1000 =
           Inr (True, setItem ss ?k (attempts_text [t1, t2]))"
    using order rapid by (simp add: checkRateLimit_stored[OF g] u)
  have 3: "checkRateLimit t3 (setItem ss ?k (attempts_text [t1, t2])) key 3 1000 =
           Inr (True, setItem ss ?k (attempts_text [t1, t2, t3]))"
    using order rapid by (simp add: checkRateLimit_stored[OF g] u)
  have 4: "checkRateLimit t4 (setItem ss ?k (attempts_text [t1, t2, t3])) key 3 1000 =
           Inr (False, setItem ss ?k (attempts_text [t1, t2, t3]))"
    using order rapid by (simp add: checkRateLimit_stored[OF g] u)
  have 5: "checkRateLimit t5 (setItem ss ?k (attempts_text [t1, t2, t3])) key 3 1000 =
           Inr (True, setItem ss ?k (attempts_text (filter (\<lambda>t. t5 - t < 1000) [t2, t3] @ [t5])))"
    using later by (simp add: checkRateLimit_stored[OF g] u)
  from 1 2 3 4 5 show ?thesis by blast
qed

theorem checkRateLimit_four_calls_witness:
  "getItem Map.empty (js ''rate_limit_'' @ js ''login'') = None \<and>
   (1000::int) \<le> 1200 \<and> (1200::int) \<le> 1400 \<and> (1400::int) \<le> 1600 \<and>
   (1600::int) - 1000 < 1000 \<and> (1000::int) \<le> 2100 - 1000 \<and>
   checkRateLimit 1000 Map.empty (js ''login'') 3 1000 =
     Inr (True, setItem Map.empty (js ''rate_limit_'' @ js ''login'') (js ''[1000]'')) \<and>
   checkRateLimit 1200 (setItem Map.empty (js ''rate_limit_'' @ js ''login'') (js ''[1000]''))
       (js ''login'') 3 1000 =
     Inr (True, setItem Map.empty (js ''rate_limit_'' @ js ''login'') (js ''[1000,1200]'')) \<and>
   checkRateLimit 1400 (setItem Map.empty (js ''rate_limit_'' @ js ''login'') (js ''[1000,1200]''))
       (js ''login'') 3 1000 =
     Inr (True, setItem Map.empty (js ''rate_limit_'' @ js ''login'') (js ''[1000,1200,1400]'')) \<and>
   checkRateLimit 1600 (setItem Map.empty (js ''rate_limit_'' @ js ''login'') (js ''[1000,1200,1400]''))
       (js ''login'') 3 1000 =
     Inr (False, setItem Map.empty (js ''rate_limit_'' @ js ''login'') (js ''[1000,1200,1400]'')) \<and>
   checkRateLimit 2100 (setItem Map.empty (js ''rate_limit_'' @ js ''login'') (js ''[1000,1200,1400]''))
       (js ''login'') 3 1000 =
     Inr (True, setItem Map.empty (js ''rate_limit_'' @ js ''login'') (js ''[1200,1400,2100]''))"
  using checkRateLimit_four_calls[of Map.empty "js ''login''" 1000 1200 1400 1600 2100]
  by (simp add: getItem_def attempts_text_eval)

text \<open>
  A sequence of calls for one key with the same \<open>maxAttempts\<close> and \<open>windowMs\<close>, at the
  given times; the result is the storage after the last call.
\<close>

fun checkRateLimit_calls :: "storage \<Rightarrow> jsstring \<Rightarrow> int \<Rightarrow> int \<Rightarrow> int list \<Rightarrow> error + storage" where
  "checkRateLimit_calls ss key maxAttempts windowMs [] = Inr ss"
| "checkRateLimit_calls ss key maxAttempts windowMs (t # ts) =
     (case checkRateLimit t ss key maxAttempts windowMs of
        Inl e \<Rightarrow> Inl e
      | Inr (allowed, ss') \<Rightarrow> checkRateLimit_calls ss' key maxAttempts windowMs ts)"

text \<open>
  The stored sequences that such calls produce: no entry, or at most \<open>maxAttempts\<close>
  timestamps. \<open>fresh_at t\<close> says that no stored timestamp is stale at time \<open>t\<close>.
\<close>

definition bounded_store :: "storage \<Rightarrow> jsstring \<Rightarrow> int \<Rightarrow> bool" where
  "bounded_store ss key maxAttempts =
     (getItem ss (js ''rate_limit_'' @ key) = None \<or>
      (\<exists>ts. getItem ss (js ''rate_limit_'' @ key) = Some (attempts_text ts) \<and>
            int (length ts) \<le> maxAttempts))"

definition fresh_at :: "storage \<Rightarrow> jsstring \<Rightarrow> int \<Rightarrow> int \<Rightarrow> bool" where
  "fresh_at ss key windowMs t =
     (getItem ss (js ''rate_limit_'' @ key) = None \<or>
      (\<exists>ts. getItem ss (js ''rate_limit_'' @ key) = Some (attempts_text ts) \<and>
            list_all (\<lambda>x. x = t \<or> t - x < windowMs) ts))"

lemma checkRateLimit_absent:
  assumes "getItem ss (js ''rate_limit_'' @ key) = None"
  shows "checkRateLimit now ss key maxAttempts windowMs =
     (if maxAttempts \<le> 0 then Inr (False, ss)
      else Inr (True, setItem ss (js ''rate_limit_'' @ key) (attempts_text [now])))"
  using assms by (simp add: checkRateLimit_def JSON_parse_empty_array attempts_text_def)

lemma filter_same_length: "length (filter P xs) = length xs \<Longrightarrow> filter P xs = xs"
  by (metis filter_True length_filter_less linorder_neq_iff)

lemma checkRateLimit_step:
  assumes "bounded_store ss key maxAttempts"
  shows "\<exists>allowed ss'. checkRateLimit t ss key maxAttempts windowMs = Inr (allowed, ss') \<and>
           bounded_store ss' key maxAttempts \<and> fresh_at ss' key windowMs t"
proof -
  let ?k = "js ''rate_limit_'' @ key"
  from assms consider "getItem ss ?k = None"
    | ts where "getItem ss ?k = Some (attempts_text ts)" "int (length ts) \<le> maxAttempts"
    unfolding bounded_store_def by auto
  then show ?thesis
  proof cases
    case 1
    show ?thesis
    proof (cases "maxAttempts \<le> 0")
      case True
      with 1 have "checkRateLimit t ss key maxAttempts windowMs = Inr (False, ss)"
        by (simp add: checkRateLimit_absent)
      moreover from 1 have "fresh_at ss key windowMs t" by (simp add: fresh_at_def)
      ultimately show ?thesis using assms by blast
    next
      case False
      have "getItem (setItem ss ?k (attempts_text [t])) ?k = Some (attempts_text [t])"
        by (simp add: getItem_def setItem_def)
      moreover have "int (length [t]) \<le> maxAttempts" "list_all (\<lambda>x. x = t \<or> t - x < windowMs) [t]"
        using False by simp_all
      ultimately have "bounded_store (setItem ss ?k (attempts_text [t])) key maxAttempts"
        "fresh_at (setItem ss ?k (attempts_text [t])) key windowMs t"
        unfolding bounded_store_def fresh_at_def by blast+
      moreover from 1 False have "checkRateLimit t ss key maxAttempts windowMs =
          Inr (True, setItem ss ?k (attempts_text [t]))"
        by (simp add: checkRateLimit_absent)
      ultimately show ?thesis by blast
    qed
  next
    case 2
    let ?f = "filter (\<lambda>x. t - x < windowMs) ts"
    show ?thesis
    proof (cases "maxAttempts \<le> int (length ?f)")
      case True
      have "length ?f \<le> length ts" by simp
      with True 2(2) have "length ?f = length ts" by linarith
      then have "?f = ts" by (rule filter_same_length)
      then have "list_all (\<lambda>x. x = t \<or> t - x < windowMs) ts"
        by (metis (mono_tags, lifting) filter_id_conv list_all_iff)
      with 2 have "fresh_at ss key windowMs t" unfolding fresh_at_def by blast
      moreover from True have "checkRateLimit t ss key maxAttempts windowMs = Inr (False, ss)"
        by (simp add: checkRateLimit_stored[OF 2(1)])
      ultimately show ?thesis using assms by blast
    next
      case False
      let ?ss' = "setItem ss ?k (attempts_text (?f @ [t]))"
      have g: "getItem ?ss' ?k = Some (attempts_text (?f @ [t]))"
        by (simp add: getItem_def setItem_def)
      have "int (length (?f @ [t])) \<le> maxAttempts" using False by simp
      with g have b: "bounded_store ?ss' key maxAttempts" unfolding bounded_store_def by blast
      have "list_all (\<lambda>x. x = t \<or> t - x < windowMs) (?f @ [t])"
        by (simp add: list_all_iff)
      with g have "fresh_at ?ss' key windowMs t" unfolding fresh_at_def by blast
      moreover from False have "checkRateLimit t ss key maxAttempts windowMs = Inr (True, ?ss')"
        by (simp add: checkRateLimit_stored[OF 2(1)])
      ultimately show ?thesis using b by blast
    qed
  qed
qed

lemma checkRateLimit_calls_fresh:
  assumes "bounded_store ss key maxAttempts"
  shows "\<exists>ss'. checkRateLimit_calls ss key maxAttempts windowMs (ts @ [t]) = Inr ss' \<and>
           fresh_at ss' key windowMs t"
  using assms
proof (induction ts arbitrary: ss)
  case Nil
  from checkRateLimit_step[OF Nil, of t windowMs] show ?case by auto
next
  case (Cons u ts)
  from checkRateLimit_step[OF Cons.prems, of u windowMs] obtain allowed ss1 where
    s: "checkRateLimit u ss key maxAttempts windowMs = Inr (allowed, ss1)"
    and b: "bounded_store ss1 key maxAttempts" by blast
  from Cons.IH[OF b] s show ?case by simp
qed

text \<open>
  No timestamp of the sequence stored for the key is stale at the time \<open>t\<close> of a call:
  every entry is the time of the call or passes \<open>t - timestamp < windowMs\<close>.
\<close>

definition stored_fresh :: "storage \<Rightarrow> jsstring \<Rightarrow> int \<Rightarrow> int \<Rightarrow> bool" where
  "stored_fresh ss key windowMs t =
     (case getItem ss (js ''rate_limit_'' @ key) of
        None \<Rightarrow> True
      | Some s \<Rightarrow>
          (case JSON_parse s of
             Inr (JArray xs) \<Rightarrow>
               list_all (\<lambda>x. x = JNumber t \<or> within_window t windowMs x = Some True) xs
           | _ \<Rightarrow> False))"

lemma fresh_at_stored_fresh: "fresh_at ss key windowMs t \<Longrightarrow> stored_fresh ss key windowMs t"
  unfolding fresh_at_def stored_fresh_def
  by (auto simp: JSON_parse_numbers[folded attempts_text_def] list_all_iff)

text \<open>
  Claim C7, as the code has it. A call that returns true stores the entries that pass
  the filter \<open>now - timestamp < windowMs\<close>, followed by \<open>now\<close>: the stale entries are
  purged. A call that returns false returns before it writes: the stored sequence stays
  as it was, and nothing is purged from it. When every call for the key has the same
  \<open>maxAttempts\<close> and \<open>windowMs\<close> and the key starts without a stored sequence, a
  rejected call finds no stale entry, so that no stored timestamp is stale after any
  call.
\<close>

theorem checkRateLimit_purges_when_allowed:
  "(checkRateLimit now ss key maxAttempts windowMs = Inr (True, ss') \<longrightarrow>
      (\<exists>attempts. getItem ss' (js ''rate_limit_'' @ key) =
                     Some (JSON_stringify (JArray (attempts @ [JNumber now]))) \<and>
                   (\<forall>x \<in> set attempts. within_window now windowMs x = Some True))) \<and>
   (checkRateLimit now ss key maxAttempts windowMs = Inr (False, ss') \<longrightarrow> ss' = ss) \<and>
   (getItem ss (js ''rate_limit_'' @ key) = None \<longrightarrow>
      (\<exists>ss''. checkRateLimit_calls ss key maxAttempts windowMs (ts @ [t]) = Inr ss'' \<and>
             stored_fresh ss'' key windowMs t))"
proof -
  have f: "filter_attempts now windowMs xs = Some ys \<Longrightarrow>
           \<forall>x \<in> set ys. within_window now windowMs x = Some True" for xs ys
    by (induction xs arbitrary: ys) (auto split: option.splits if_splits)
  have t: "\<exists>parsed attempts. filter_attempts now windowMs parsed = Some attempts \<and>
         ss' = setItem ss (js ''rate_limit_'' @ key) (JSON_stringify (JArray (attempts @ [JNumber now])))"
    if "checkRateLimit now ss key maxAttempts windowMs = Inr (True, ss')"
    using that
    by (auto simp: checkRateLimit_def Let_def simp del: JSON_stringify.simps
        split: sum.splits json.splits option.splits if_splits)
  have r: "ss' = ss" if "checkRateLimit now ss key maxAttempts windowMs = Inr (False, ss')"
    using that
    by (auto simp: checkRateLimit_def Let_def simp del: JSON_stringify.simps
        split: sum.splits json.splits option.splits if_splits)
  show ?thesis
  proof (intro conjI impI)
    assume "checkRateLimit now ss key maxAttempts windowMs = Inr (True, ss')"
    from t[OF this] obtain parsed attempts where
      a: "filter_attempts now windowMs parsed = Some attempts" and
      s: "ss' = setItem ss (js ''rate_limit_'' @ key) (JSON_stringify (JArray (attempts @ [JNumber now])))"
      by blast
    have "getItem ss' (js ''rate_limit_'' @ key) = Some (JSON_stringify (JArray (attempts @ [JNumber now])))"
      unfolding s by (simp add: getItem_def setItem_def)
    with f[OF a]
    show "\<exists>attempts. getItem ss' (js ''rate_limit_'' @ key) =
                     Some (JSON_stringify (JArray (attempts @ [JNumber now]))) \<and>
                   (\<forall>x \<in> set attempts. within_window now windowMs x = Some True)"
      by blast
  next
    assume "checkRateLimit now ss key maxAttempts windowMs = Inr (False, ss')"
    then show "ss' = ss" by (rule r)
  next
    assume "getItem ss (js ''rate_limit_'' @ key) = None"
    then have "bounded_store ss key maxAttempts" by (simp add: bounded_store_def)
    from checkRateLimit_calls_fresh[OF this, of windowMs ts t]
    show "\<exists>ss''. checkRateLimit_calls ss key maxAttempts windowMs (ts @ [t]) = Inr ss'' \<and>
             stored_fresh ss'' key windowMs t"
      by (blast intro: fresh_at_stored_fresh)
  qed
qed

theorem checkRateLimit_purges_when_allowed_witness:
  "checkRateLimit 1050 (setItem Map.empty (js ''rate_limit_'' @ js ''login'') (js ''[0,100]''))
       (js ''login'') 5 1000 =
     Inr (True, setItem Map.empty (js ''rate_limit_'' @ js ''login'') (js ''[100,1050]'')) \<and>
   checkRateLimit 1050 (setItem Map.empty (js ''rate_limit_'' @ js ''login'') (js ''[0,100]''))
       (js ''login'') 1 1000 =
     Inr (False, setItem Map.empty (js ''rate_limit_'' @ js ''login'') (js ''[0,100]'')) \<and>
   JSON_stringify (JArray ([JNumber 100] @ [JNumber 1050])) = js ''[100,1050]'' \<and>
   within_window 1050 1000 (JNumber 100) = Some True \<and>
   getItem Map.empty (js ''rate_limit_'' @ js ''login'') = None \<and>
   checkRateLimit_calls Map.empty (js ''login'') 1 1000 ([0] @ [1050]) =
     Inr (setItem Map.empty (js ''rate_limit_'' @ js ''login'') (js ''[1050]'')) \<and>
   stored_fresh (setItem Map.empty (js ''rate_limit_'' @ js ''login'') (js ''[1050]''))
     (js ''login'') 1000 1050"
proof -
  let ?k = "js ''rate_limit_'' @ js ''login''"
  let ?ss = "setItem Map.empty ?k (js ''[0,100]'')"
  have g: "getItem ?ss ?k = Some (attempts_text [0, 100])"
    by (simp add: getItem_def setItem_def attempts_text_eval)
  have a: "checkRateLimit 1050 ?ss (js ''login'') 5 1000 = Inr (True, setItem Map.empty ?k (js ''[100,1050]''))"
    by (simp add: checkRateLimit_stored[OF g] attempts_text_eval) (simp add: setItem_def)
  have b: "checkRateLimit 1050 ?ss (js ''login'') 1 1000 = Inr (False, ?ss)"
    by (simp add: checkRateLimit_stored[OF g])
  have c: "JSON_stringify (JArray ([JNumber 100] @ [JNumber 1050])) = js ''[100,1050]''"
    by code_simp
  have n: "getItem Map.empty ?k = None" by (simp add: getItem_def)
  have g0: "getItem (setItem Map.empty ?k (attempts_text [0])) ?k = Some (attempts_text [0])"
    by (simp add: getItem_def setItem_def)
  have e: "attempts_text [1050] = js ''[1050]''" unfolding attempts_text_def by code_simp
  have d: "checkRateLimit_calls Map.empty (js ''login'') 1 1000 ([0] @ [1050]) =
     Inr (setItem Map.empty ?k (js ''[1050]''))"
    by (simp add: checkRateLimit_absent[OF n] checkRateLimit_stored[OF g0] e) (simp add: setItem_def)
  from checkRateLimit_purges_when_allowed[of 1050 ?ss "js ''login''" 5 1000 "setItem Map.empty ?k (js ''[100,1050]'')"]
    checkRateLimit_purges_when_allowed[of 1050 ?ss "js ''login''" 1 1000 ?ss]
    checkRateLimit_purges_when_allowed[of 1050 Map.empty "js ''login''" 1 1000 Map.empty "[0]" 1050]
    a b c d n show ?thesis by simp
qed

text \<open>
  Claim C7 as stated fails: after attempts at times 0 and 100 (limit 5), a call at
  time 1050 with limit 1 is rejected and the stored sequence is still \<open>[0,100]\<close>, whose
  first entry is older than the window of 1000.
\<close>

theorem checkRateLimit_rejected_keeps_stale:
  "checkRateLimit 0 Map.empty (js ''login'') 5 1000 =
     Inr (True, setItem Map.empty (js ''rate_limit_'' @ js ''login'') (js ''[0]'')) \<and>
   checkRateLimit 100 (setItem Map.empty (js ''rate_limit_'' @ js ''login'') (js ''[0]''))
       (js ''login'') 5 1000 =
     Inr (True, setItem Map.empty (js ''rate_limit_'' @ js ''login'') (js ''[0,100]'')) \<and>
   checkRateLimit 1050 (setItem Map.empty (js ''rate_limit_'' @ js ''login'') (js ''[0,100]''))
       (js ''login'') 1 1000 =
     Inr (False, setItem Map.empty (js ''rate_limit_'' @ js ''login'') (js ''[0,100]'')) \<and>
   getItem (setItem Map.empty (js ''rate_limit_'' @ js ''login'') (js ''[0,100]''))
       (js ''rate_limit_'' @ js ''login'') = Some (js ''[0,100]'') \<and>
   JSON_parse (js ''[0,100]'') = Inr (JArray [JNumber 0, JNumber 100]) \<and>
   \<not> ((1050::int) - 0 < 1000)"
proof -
  let ?k = "js ''rate_limit_'' @ js ''login''"
  have g: "\<And>ts. getItem (setItem Map.empty ?k (attempts_text ts)) ?k = Some (attempts_text ts)"
    by (simp add: getItem_def setItem_def)
  have u: "\<And>ts us. setItem (setItem Map.empty ?k (attempts_text ts)) ?k us = setItem Map.empty ?k us"
    by (simp add: setItem_def)
  have 1: "checkRateLimit 0 Map.empty (js ''login'') 5 1000 = Inr (True, setItem Map.empty ?k (attempts_text [0]))"
    by (simp add: checkRateLimit_def JSON_parse_empty_array attempts_text_def getItem_def)
  have 2: "checkRateLimit 100 (setItem Map.empty ?k (attempts_text [0])) (js ''login'') 5 1000 =
     Inr (True, setItem Map.empty ?k (attempts_text [0, 100]))"
    by (simp add: checkRateLimit_stored[OF g] u)
  have 3: "checkRateLimit 1050 (setItem Map.empty ?k (attempts_text [0, 100])) (js ''login'') 1 1000 =
     Inr (False, setItem Map.empty ?k (attempts_text [0, 100]))"
    by (simp add: checkRateLimit_stored[OF g] u)
  have 4: "JSON_parse (js ''[0,100]'') = Inr (JArray [JNumber 0, JNumber 100])" by code_simp
  from 1 2 3 4 show ?thesis by (simp add: attempts_text_eval getItem_def setItem_def)
qed

section \<open>Verification: unescape after encodeURIComponent\<close>

declare unescape.simps [simp del] decodeURIComponent.simps [simp del]

lemma unat_upper_hex:
  assumes "d < 16"
  shows "unat (upper_hex d) = (if d < 10 then 48 + d else 55 + d)"
proof -
  have "unat (of_nat (48 + d) :: code_unit) = 48 + d" "unat (of_nat (55 + d) :: code_unit) = 55 + d"
    using assms by (simp_all add: unat_of_nat16 del: of_nat_add)
  then show ?thesis by (simp add: upper_hex_def del: of_nat_add)
qed

lemma hex_val_unat:
  "hex_val c =
     (if 48 \<le> unat c \<and> unat c \<le> 57 then Some (unat c - 48)
      else if 65 \<le> unat c \<and> unat c \<le> 70 then Some (unat c - 55)
      else if 97 \<le> unat c \<and> unat c \<le> 102 then Some (unat c - 87)
      else None)"
  by (simp add: hex_val_def word_le_nat_alt)

lemma hex_val_upper_hex: "d < 16 \<Longrightarrow> hex_val (upper_hex d) = Some d"
  by (simp add: hex_val_unat unat_upper_hex)

lemma upper_hex_not_u: "d < 16 \<Longrightarrow> upper_hex d \<noteq> cu CHR ''u''"
  by (auto simp: word_unat_eq_iff unat_upper_hex cu_def split: if_splits)

lemma hex_value_pair:
  "b < 256 \<Longrightarrow> hex_value [upper_hex (b div 16), upper_hex (b mod 16)] = Some b"
  by (simp add: hex_val_upper_hex)

lemma unescape_percent_octet:
  assumes "b < 256"
  shows "unescape (percent_octet b @ t) = of_nat b # unescape t"
proof -
  have "upper_hex (b div 16) \<noteq> cu CHR ''u''"
    using assms by (intro upper_hex_not_u) simp
  then show ?thesis
    using hex_value_pair[OF assms]
    by (simp add: percent_octet_def unescape.simps(2)[of "0x25" "upper_hex (b div 16) # upper_hex (b mod 16) # t"])
qed

lemma unescape_plain: "c \<noteq> 0x25 \<Longrightarrow> unescape (c # t) = c # unescape t"
  by (simp add: unescape.simps(2)[of c t])

lemma unescape_percent_octets:
  "\<forall>b \<in> set bs. b < 256 \<Longrightarrow> unescape (percent_octets bs @ t) = map of_nat bs @ unescape t"
  by (induction bs) (simp_all add: percent_octets_def unescape_percent_octet)

lemma utf8_octets_bound: "cp < 0x110000 \<Longrightarrow> \<forall>b \<in> set (utf8_octets cp). b < 256"
  by (auto simp: utf8_octets_def)

section \<open>Verification: decodeURIComponent after escape\<close>

lemma is_alnum_unat:
  "is_alnum c \<longleftrightarrow> (65 \<le> unat c \<and> unat c \<le> 90) \<or> (97 \<le> unat c \<and> unat c \<le> 122) \<or> (48 \<le> unat c \<and> unat c \<le> 57)"
  by (simp add: is_alnum_def word_le_nat_alt)

lemma escape_unreserved_ascii: "escape_unreserved c \<Longrightarrow> unat c < 128 \<and> c \<noteq> 0x25"
  by (auto simp: escape_unreserved_def is_alnum_unat)

lemma uri_unreserved_ascii: "uri_unreserved c \<Longrightarrow> unat c < 128 \<and> c \<noteq> 0x25"
  by (auto simp: uri_unreserved_def is_alnum_unat)

lemma pct_octet_percent_octet:
  "b < 256 \<Longrightarrow> pct_octet (percent_octet b @ r) = Some (b, r)"
  by (simp add: pct_octet_def percent_octet_def hex_val_upper_hex)

lemma pct_octets_percent_octets:
  "\<forall>b \<in> set bs. b < 256 \<Longrightarrow> pct_octets (length bs) (percent_octets bs @ r) = Some (bs, r)"
  by (induction bs) (simp_all add: percent_octets_def pct_octet_percent_octet)

lemma escape_unit_octet:
  assumes "b < 256"
  shows "escape_unit (of_nat b) = (if escape_unreserved (of_nat b) then [of_nat b] else percent_octet b)"
proof -
  have u: "unat (of_nat b :: code_unit) = b" using assms by (simp add: unat_of_nat16)
  have "(of_nat b :: code_unit) < 256" using assms u by (simp add: word_less_nat_alt)
  then show ?thesis by (simp add: escape_unit_def percent_octet_def u)
qed

lemma escape_append: "escape (a @ b) = escape a @ escape b"
  by (simp add: escape_def)

lemma escape_high_octets:
  "\<forall>b \<in> set bs. 128 \<le> b \<and> b < 256 \<Longrightarrow> escape (map of_nat bs) = percent_octets bs"
proof (induction bs)
  case Nil
  then show ?case by (simp add: escape_def percent_octets_def)
next
  case (Cons b bs)
  then have b: "128 \<le> b" "b < 256" by simp_all
  then have "unat (of_nat b :: code_unit) = b" by (simp add: unat_of_nat16)
  with b have "\<not> escape_unreserved (of_nat b)" using escape_unreserved_ascii[of "of_nat b"] by auto
  with Cons b show ?case
    by (simp add: escape_def percent_octets_def escape_unit_octet del: of_nat_add)
qed

lemma decodeURIComponent_plain:
  "c \<noteq> 0x25 \<Longrightarrow> decodeURIComponent (c # r) = prepend [c] (decodeURIComponent r)"
  by (simp add: decodeURIComponent.simps(2)[of c r])

lemma decodeURIComponent_percent:
  assumes "b < 256"
  shows "decodeURIComponent (percent_octet b @ r) =
     (if leading_ones b = 0 then prepend [of_nat b] (decodeURIComponent r)
      else if leading_ones b = 1 \<or> 4 < leading_ones b then Inl URIError
      else
        (case pct_octets (leading_ones b - 1) r of
           None \<Rightarrow> Inl URIError
         | Some (bs, rest') \<Rightarrow>
             (case utf8_decode (b # bs) of
                None \<Rightarrow> Inl URIError
              | Some cp \<Rightarrow> prepend (utf16_units cp) (decodeURIComponent rest'))))"
proof -
  have p: "pct_octet (0x25 # upper_hex (b div 16) # upper_hex (b mod 16) # r) = Some (b, r)"
    using pct_octet_percent_octet[OF assms, of r] by (simp add: percent_octet_def)
  show ?thesis
    by (simp add: percent_octet_def p
        decodeURIComponent.simps(2)[of "0x25" "upper_hex (b div 16) # upper_hex (b mod 16) # r"])
qed

lemma decodeURIComponent_ascii:
  assumes "b < 128"
  shows "decodeURIComponent (escape_unit (of_nat b) @ r) = prepend [of_nat b] (decodeURIComponent r)"
proof (cases "escape_unreserved (of_nat b :: code_unit)")
  case True
  then have "(of_nat b :: code_unit) \<noteq> 0x25" using escape_unreserved_ascii by blast
  with True assms show ?thesis
    by (simp add: escape_unit_octet decodeURIComponent_plain del: of_nat_add)
next
  case False
  with assms show ?thesis
    by (simp add: escape_unit_octet decodeURIComponent_percent leading_ones_def)
qed

lemma split3: "(cp::nat) div 4096 * 4096 + cp div 64 mod 64 * 64 + cp mod 64 = cp"
proof -
  have "cp mod (64 * 64) = 64 * (cp div 64 mod 64) + cp mod 64" by (rule mod_mult2_eq)
  moreover have "cp div 4096 * 4096 + cp mod 4096 = cp" by simp
  ultimately show ?thesis by simp
qed

lemma split4:
  "(cp::nat) div 262144 * 262144 + cp div 4096 mod 64 * 4096 + cp div 64 mod 64 * 64 + cp mod 64 = cp"
proof -
  have a: "cp mod (4096 * 64) = 4096 * (cp div 4096 mod 64) + cp mod 4096" by (rule mod_mult2_eq)
  have b: "cp mod (64 * 64) = 64 * (cp div 64 mod 64) + cp mod 64" by (rule mod_mult2_eq)
  have "cp div 262144 * 262144 + cp mod 262144 = cp" by simp
  with a b show ?thesis by simp
qed

lemma utf8_decode_octets:
  assumes "128 \<le> cp" "cp < 0x110000" "\<not> (0xD800 \<le> cp \<and> cp \<le> 0xDFFF)"
  shows "utf8_decode (utf8_octets cp) = Some cp"
proof -
  consider "cp < 0x800" | "0x800 \<le> cp" "cp < 0x10000" | "0x10000 \<le> cp" by linarith
  then show ?thesis
  proof cases
    case 1
    have "cp div 64 * 64 + cp mod 64 = cp" by simp
    with 1 assms(1) show ?thesis
      by (simp add: utf8_octets_def is_continuation_def Let_def)
  next
    case 2
    with assms(1,3) split3[of cp] show ?thesis
      by (simp add: utf8_octets_def is_continuation_def Let_def)
  next
    case 3
    with assms(2) split4[of cp] show ?thesis
      by (simp add: utf8_octets_def is_continuation_def Let_def)
  qed
qed

lemma utf8_octets_shape:
  assumes "128 \<le> cp" "cp < 0x110000"
  shows "\<exists>b bs. utf8_octets cp = b # bs \<and> leading_ones b = Suc (length bs) \<and> 2 \<le> leading_ones b \<and>
           leading_ones b \<le> 4 \<and> (\<forall>x \<in> set (b # bs). 128 \<le> x \<and> x < 256)"
proof -
  have m: "cp mod 64 < 128" "cp div 64 mod 64 < 128" "cp div 4096 mod 64 < 128"
    by (rule less_trans[of _ 64], simp, simp)+
  consider "cp < 0x800" | "0x800 \<le> cp" "cp < 0x10000" | "0x10000 \<le> cp" by linarith
  then show ?thesis
  proof cases
    case 1
    then have "cp div 64 < 32" by simp
    with 1 assms(1) m show ?thesis
      by (simp add: utf8_octets_def leading_ones_def)
  next
    case 2
    then have "cp div 4096 < 16" by simp
    with 2 m show ?thesis
      by (simp add: utf8_octets_def leading_ones_def)
  next
    case 3
    from assms(2) have "cp div 262144 < 5" by simp
    with 3 m show ?thesis
      by (simp add: utf8_octets_def leading_ones_def)
  qed
qed

lemma decodeURIComponent_code_point:
  assumes "cp < 0x110000" "\<not> (0xD800 \<le> cp \<and> cp \<le> 0xDFFF)"
  shows "decodeURIComponent (escape (map of_nat (utf8_octets cp)) @ r) =
           prepend (utf16_units cp) (decodeURIComponent r)"
proof (cases "cp < 128")
  case True
  then show ?thesis
    using decodeURIComponent_ascii[of cp r]
    by (simp add: utf8_octets_def escape_def utf16_units_def)
next
  case False
  then have ge: "128 \<le> cp" by simp
  from utf8_octets_shape[OF ge assms(1)] obtain b bs where
    o: "utf8_octets cp = b # bs" and l: "leading_ones b = Suc (length bs)"
    and l2: "2 \<le> leading_ones b" "leading_ones b \<le> 4"
    and r: "\<forall>x \<in> set (b # bs). 128 \<le> x \<and> x < 256" by blast
  have e: "escape (map of_nat (utf8_octets cp)) = percent_octet b @ percent_octets bs"
    using escape_high_octets[OF r] by (simp add: o percent_octets_def)
  have b: "b < 256" and bs: "\<forall>x \<in> set bs. x < 256" using r by auto
  have p: "pct_octets (leading_ones b - 1) (percent_octets bs @ r) = Some (bs, r)"
    using pct_octets_percent_octets[OF bs, of r] l by simp
  have d: "utf8_decode (b # bs) = Some cp"
    using utf8_decode_octets[OF ge assms] o by simp
  show ?thesis
    unfolding e using l2 p d
    by (simp add: decodeURIComponent_percent[OF b])
qed

lemma prepend_Inr: "prepend xs r = Inr enc \<longleftrightarrow> (\<exists>enc'. r = Inr enc' \<and> enc = xs @ enc')"
  by (auto simp: prepend_def split: sum.splits)

lemma prepend_Inl: "prepend xs r = Inl e \<longleftrightarrow> r = Inl e"
  by (auto simp: prepend_def split: sum.splits)

lemma surrogate_unat:
  "is_high_surrogate c \<longleftrightarrow> 0xD800 \<le> unat c \<and> unat c \<le> 0xDBFF"
  "is_low_surrogate c \<longleftrightarrow> 0xDC00 \<le> unat c \<and> unat c \<le> 0xDFFF"
  by (simp_all add: is_high_surrogate_def is_low_surrogate_def word_le_nat_alt)

lemma octet_unit_le: "b < 256 \<Longrightarrow> (of_nat b :: code_unit) \<le> 0xFF"
  by (simp add: word_le_nat_alt unat_of_nat16)

lemma unat_lt_65536: "unat (c :: code_unit) < 65536"
  using unsigned_less[of c, where 'a = nat] by simp

lemma utf16_units_bmp: "utf16_units (unat (c :: code_unit)) = [c]"
  using unat_lt_65536[of c] by (simp add: utf16_units_def)

lemma pair_code_point_range:
  assumes "is_high_surrogate c" "is_low_surrogate d"
  shows "0x10000 \<le> pair_code_point c d \<and> pair_code_point c d < 0x110000"
  using assms unfolding pair_code_point_def surrogate_unat by linarith

lemma utf16_units_pair:
  assumes "is_high_surrogate c" "is_low_surrogate d"
  shows "utf16_units (pair_code_point c d) = [c, d]"
proof -
  define h where "h = unat c - 0xD800"
  define l where "l = unat d - 0xDC00"
  have hc: "unat c = 0xD800 + h" and ld: "unat d = 0xDC00 + l" and l: "l < 0x400"
    using assms unfolding surrogate_unat h_def l_def by linarith+
  have cp: "pair_code_point c d = 0x10000 + (h * 0x400 + l)"
    by (simp add: pair_code_point_def h_def l_def)
  have "(h * 0x400 + l) div 0x400 = h" "(h * 0x400 + l) mod 0x400 = l"
    using l by simp_all
  then have "utf16_units (pair_code_point c d) = [of_nat (unat c), of_nat (unat d)]"
    unfolding cp hc ld by (simp add: utf16_units_def del: of_nat_add)
  then show ?thesis by simp
qed

lemma escape_Cons: "escape (c # s) = escape_unit c @ escape s"
  by (simp add: escape_def)

lemma uri_round_trip:
  "encodeURIComponent x = Inr enc \<Longrightarrow>
     (\<forall>c \<in> set (unescape enc). c \<le> 0xFF) \<and> decodeURIComponent (escape (unescape enc)) = Inr x"
proof (induction x arbitrary: enc rule: encodeURIComponent.induct)
  case 1
  then show ?case
    by (simp add: unescape.simps(1) escape_def decodeURIComponent.simps(1))
next
  case (2 c cs)
  show ?case
  proof (cases "uri_unreserved c")
    case True
    with "2.prems" obtain enc' where e: "encodeURIComponent cs = Inr enc'" "enc = c # enc'"
      by (auto simp: prepend_Inr)
    from "2.IH"(1)[OF True e(1)] have ih: "\<forall>c \<in> set (unescape enc'). c \<le> 0xFF"
      "decodeURIComponent (escape (unescape enc')) = Inr cs" by simp_all
    from uri_unreserved_ascii[OF True] have a: "unat c < 128" "c \<noteq> 0x25" by simp_all
    have u: "unescape enc = c # unescape enc'" using a by (simp add: e unescape_plain)
    have le: "c \<le> 0xFF" using a by (simp add: word_le_nat_alt)
    have "decodeURIComponent (escape_unit (of_nat (unat c)) @ escape (unescape enc')) =
            prepend [of_nat (unat c)] (decodeURIComponent (escape (unescape enc')))"
      using a by (intro decodeURIComponent_ascii) simp
    then have "decodeURIComponent (escape (unescape enc)) = Inr (c # cs)"
      by (simp add: u escape_Cons ih prepend_def)
    with ih le u show ?thesis by simp
  next
    case False
    note nu = False
    show ?thesis
    proof (cases "is_low_surrogate c")
      case True
      with nu "2.prems" show ?thesis by simp
    next
      case False
      note nl = False
      show ?thesis
      proof (cases "is_high_surrogate c")
        case True
        with nu nl "2.prems" obtain d ds enc' where
          cs: "cs = d # ds" and d: "is_low_surrogate d" and
          e: "encodeURIComponent ds = Inr enc'"
             "enc = percent_octets (utf8_octets (pair_code_point c d)) @ enc'"
          by (auto simp: prepend_Inr split: list.splits if_splits)
        from "2.IH"(2)[OF nu nl True cs d e(1)] have ih: "\<forall>c \<in> set (unescape enc'). c \<le> 0xFF"
          "decodeURIComponent (escape (unescape enc')) = Inr ds" by simp_all
        let ?cp = "pair_code_point c d"
        from pair_code_point_range[OF True d] have r: "0x10000 \<le> ?cp" "?cp < 0x110000" by simp_all
        from utf8_octets_bound[OF r(2)] have b: "\<forall>b \<in> set (utf8_octets ?cp). b < 256" .
        have u: "unescape enc = map of_nat (utf8_octets ?cp) @ unescape enc'"
          using b by (simp add: e unescape_percent_octets)
        have le: "\<forall>c \<in> set (unescape enc). c \<le> 0xFF"
          using b ih(1) by (auto simp: u octet_unit_le)
        have "decodeURIComponent (escape (map of_nat (utf8_octets ?cp)) @ escape (unescape enc')) =
                prepend (utf16_units ?cp) (decodeURIComponent (escape (unescape enc')))"
          using r by (intro decodeURIComponent_code_point) simp_all
        then have "decodeURIComponent (escape (unescape enc)) = Inr (c # cs)"
          by (simp add: u escape_append ih prepend_def utf16_units_pair[OF True d] cs)
        with le show ?thesis by simp
      next
        case False
        with nu nl "2.prems" obtain enc' where
          e: "encodeURIComponent cs = Inr enc'"
             "enc = percent_octets (utf8_octets (unat c)) @ enc'"
          by (auto simp: prepend_Inr)
        from "2.IH"(3)[OF nu nl False e(1)] have ih: "\<forall>c \<in> set (unescape enc'). c \<le> 0xFF"
          "decodeURIComponent (escape (unescape enc')) = Inr cs" by simp_all
        let ?cp = "unat c"
        have r: "?cp < 0x110000" "\<not> (0xD800 \<le> ?cp \<and> ?cp \<le> 0xDFFF)"
          using unat_lt_65536[of c] nl False by (auto simp: surrogate_unat)
        from utf8_octets_bound[OF r(1)] have b: "\<forall>b \<in> set (utf8_octets ?cp). b < 256" .
        have u: "unescape enc = map of_nat (utf8_octets ?cp) @ unescape enc'"
          using b by (simp add: e unescape_percent_octets)
        have le: "\<forall>c \<in> set (unescape enc). c \<le> 0xFF"
          using b ih(1) by (auto simp: u octet_unit_le)
        have "decodeURIComponent (escape (map of_nat (utf8_octets ?cp)) @ escape (unescape enc')) =
                prepend (utf16_units ?cp) (decodeURIComponent (escape (unescape enc')))"
          using r by (intro decodeURIComponent_code_point) simp_all
        then have "decodeURIComponent (escape (unescape enc)) = Inr (c # cs)"
          by (simp add: u escape_append ih prepend_def utf16_units_bmp)
        with le show ?thesis by simp
      qed
    qed
  qed
qed

lemma encodeURIComponent_error:
  "encodeURIComponent x = Inl e \<Longrightarrow> \<exists>c \<in> set x. is_high_surrogate c \<or> is_low_surrogate c"
proof (induction x rule: encodeURIComponent.induct)
  case 1
  then show ?case by simp
next
  case (2 c cs)
  then show ?case
    by (auto simp: prepend_Inl split: if_splits list.splits)
qed

section \<open>Verification: atob after btoa\<close>

lemma unat_b64_char:
  assumes "n < 64"
  shows "unat (b64_char n) =
     (if n < 26 then 65 + n else if n < 52 then 71 + n else if n < 62 then n - 4
      else if n = 62 then 43 else 47)"
proof -
  have "unat (of_nat (65 + n) :: code_unit) = 65 + n" "unat (of_nat (71 + n) :: code_unit) = 71 + n"
    "unat (of_nat (n - 4) :: code_unit) = n - 4"
    using assms by (simp_all add: unat_of_nat16 del: of_nat_add of_nat_diff)
  then show ?thesis by (simp add: b64_char_def del: of_nat_add of_nat_diff)
qed

lemma b64_val_unat:
  "b64_val c =
     (if 65 \<le> unat c \<and> unat c \<le> 90 then Some (unat c - 65)
      else if 97 \<le> unat c \<and> unat c \<le> 122 then Some (unat c - 71)
      else if 48 \<le> unat c \<and> unat c \<le> 57 then Some (unat c + 4)
      else if unat c = 43 then Some 62
      else if unat c = 47 then Some 63
      else None)"
  by (simp add: b64_val_def word_le_nat_alt word_unat_eq_iff)

lemma b64_val_b64_char:
  assumes "n < 64"
  shows "b64_val (b64_char n) = Some n"
proof -
  consider "n < 26" | "26 \<le> n" "n < 52" | "52 \<le> n" "n < 62" | "n = 62" | "n = 63"
    using assms by linarith
  then show ?thesis
  proof cases
    case 1
    then show ?thesis by (simp add: b64_val_unat unat_b64_char)
  next
    case 2
    then show ?thesis by (simp add: b64_val_unat unat_b64_char)
  next
    case 3
    then have "unat (b64_char n) = n - 4" by (simp add: unat_b64_char)
    moreover from 3 have "48 \<le> n - 4" "n - 4 \<le> 57" "n - 4 + 4 = n" by linarith+
    ultimately show ?thesis by (simp add: b64_val_unat)
  next
    case 4
    then show ?thesis by (simp add: b64_val_unat unat_b64_char)
  next
    case 5
    then show ?thesis by (simp add: b64_val_unat unat_b64_char)
  qed
qed

lemma b64_char_not_padding: "n < 64 \<Longrightarrow> b64_char n \<noteq> 0x3D"
  by (auto simp: word_unat_eq_iff unat_b64_char split: if_splits)

lemma b64_char_not_ws: "n < 64 \<Longrightarrow> \<not> is_ascii_ws (b64_char n)"
  by (auto simp: is_ascii_ws_def word_unat_eq_iff unat_b64_char split: if_splits)

lemma padding_not_ws: "\<not> is_ascii_ws 0x3D"
  by (simp add: is_ascii_ws_def)

lemma sextets_bound: "\<forall>b \<in> set bs. b < 256 \<Longrightarrow> \<forall>s \<in> set (sextets bs). s < 64"
proof (induction bs rule: sextets.induct)
  case 1
  then show ?case by simp
next
  case (2 a)
  then have "a div 4 < 64" by simp
  moreover have "a mod 4 * 16 < 64" using mod_less_divisor[of 4 a] by linarith
  ultimately show ?case by simp
next
  case (3 a b)
  then have "a < 256" "b < 256" by simp_all
  then have "a div 4 < 64" "b div 16 < 16" by simp_all
  moreover have "a mod 4 * 16 \<le> 48" "b mod 16 * 4 < 64"
    using mod_less_divisor[of 4 a] mod_less_divisor[of 16 b] by linarith+
  ultimately show ?case by simp
next
  case (4 a b c r)
  then have "a < 256" "b < 256" "c < 256" by simp_all
  then have "a div 4 < 64" "b div 16 < 16" "c div 64 < 4" by simp_all
  moreover have "a mod 4 * 16 \<le> 48" "b mod 16 * 4 \<le> 60" "c mod 64 < 64"
    using mod_less_divisor[of 4 a] mod_less_divisor[of 16 b] by (linarith, linarith, simp)
  ultimately show ?case using 4 by simp
qed

lemma octets_sextets: "\<forall>b \<in> set bs. b < 256 \<Longrightarrow> octets (sextets bs) = bs"
proof (induction bs rule: sextets.induct)
  case 1
  then show ?case by simp
next
  case (2 a)
  have "(a mod 4 * 16) div 16 = a mod 4" by simp
  then show ?case by simp
next
  case (3 a b)
  then have "b < 256" by simp
  then have "b div 16 < 16" by simp
  then have "(a mod 4 * 16 + b div 16) div 16 = a mod 4" "(a mod 4 * 16 + b div 16) mod 16 = b div 16"
    by simp_all
  moreover have "(b mod 16 * 4) div 4 = b mod 16" by simp
  ultimately show ?case by simp
next
  case (4 a b c r)
  then have "b < 256" "c < 256" by simp_all
  then have "b div 16 < 16" "c div 64 < 4" by simp_all
  then have "(a mod 4 * 16 + b div 16) div 16 = a mod 4" "(a mod 4 * 16 + b div 16) mod 16 = b div 16"
    "(b mod 16 * 4 + c div 64) div 4 = b mod 16" "(b mod 16 * 4 + c div 64) mod 4 = c div 64"
    by simp_all
  then show ?case using 4 by simp
qed

lemma length_sextets:
  "length (sextets bs) =
     4 * (length bs div 3) + (if length bs mod 3 = 0 then 0 else length bs mod 3 + 1)"
proof (induction bs rule: sextets.induct)
  case (4 a b c r)
  have "(3 + length r) div 3 = Suc (length r div 3)" "(3 + length r) mod 3 = length r mod 3"
    by simp_all
  with 4 show ?case by simp
qed simp_all

lemma sextets_nonempty: "bs \<noteq> [] \<Longrightarrow> sextets bs \<noteq> []"
  by (cases bs rule: sextets.cases) simp_all

lemma strip_padding_encode:
  assumes "\<forall>b \<in> set bs. b < 256"
  shows "strip_padding (base64_encode bs) = map b64_char (sextets bs)"
proof -
  let ?sx = "map b64_char (sextets bs)"
  have last_ok: "last ?sx \<noteq> 0x3D" if "bs \<noteq> []"
  proof -
    from that have ne: "sextets bs \<noteq> []" by (rule sextets_nonempty)
    then have "last (sextets bs) \<in> set (sextets bs)" by simp
    with sextets_bound[OF assms] have "last (sextets bs) < 64" by blast
    then show ?thesis using ne by (simp add: last_map b64_char_not_padding)
  qed
  have "length bs mod 3 = 0 \<or> length bs mod 3 = 1 \<or> length bs mod 3 = 2" by linarith
  then show ?thesis
  proof (elim disjE)
    assume m: "length bs mod 3 = 0"
    then have e: "base64_encode bs = ?sx" by (simp add: base64_encode_def)
    show ?thesis
    proof (cases "bs = []")
      case True
      then show ?thesis by (simp add: base64_encode_def strip_padding_def)
    next
      case False
      from last_ok[OF False] show ?thesis by (simp add: e strip_padding_def)
    qed
  next
    assume m: "length bs mod 3 = 1"
    then have e: "base64_encode bs = ?sx @ [0x3D, 0x3D]"
      by (simp add: base64_encode_def numeral_2_eq_2)
    have "length (base64_encode bs) mod 4 = 0"
      by (simp add: e length_sextets m)
    then show ?thesis
      by (simp add: strip_padding_def e butlast_append)
  next
    assume m: "length bs mod 3 = 2"
    then have ne: "bs \<noteq> []" by auto
    from m have e: "base64_encode bs = ?sx @ [0x3D]"
      by (simp add: base64_encode_def)
    have l: "length (base64_encode bs) mod 4 = 0"
      by (simp add: e length_sextets m)
    have sxne: "?sx \<noteq> []" using sextets_nonempty[OF ne] by simp
    have "last (butlast (?sx @ [0x3D])) \<noteq> 0x3D" using last_ok[OF ne] by (simp add: butlast_append)
    with l show ?thesis
      by (simp add: strip_padding_def e)
  qed
qed

lemma base64_encode_no_ws:
  assumes "\<forall>b \<in> set bs. b < 256"
  shows "filter (\<lambda>c. \<not> is_ascii_ws c) (base64_encode bs) = base64_encode bs"
proof -
  have "\<forall>c \<in> set (base64_encode bs). \<not> is_ascii_ws c"
    using sextets_bound[OF assms] by (auto simp: base64_encode_def b64_char_not_ws padding_not_ws)
  then show ?thesis by (simp add: filter_id_conv)
qed

lemma atob_base64_encode:
  assumes "\<forall>b \<in> set bs. b < 256"
  shows "atob (base64_encode bs) = Inr (map of_nat bs)"
proof -
  let ?sx = "map b64_char (sextets bs)"
  have d: "strip_padding (filter (\<lambda>c. \<not> is_ascii_ws c) (base64_encode bs)) = ?sx"
    by (simp add: base64_encode_no_ws[OF assms] strip_padding_encode[OF assms])
  have l: "length ?sx mod 4 \<noteq> 1"
    by (simp add: length_sextets)
  have v: "\<forall>s \<in> set (sextets bs). b64_val (b64_char s) = Some s"
    using sextets_bound[OF assms] by (simp add: b64_val_b64_char)
  then have ok: "\<not> list_ex (\<lambda>c. b64_val c = None) ?sx"
    by (simp add: list_ex_iff)
  have m: "map (\<lambda>c. the (b64_val c)) ?sx = sextets bs"
    using v by (simp add: map_idI)
  show ?thesis
    unfolding atob_def d Let_def using l ok m octets_sextets[OF assms] by simp
qed

lemma btoa_octets:
  assumes "\<forall>c \<in> set s. c \<le> 0xFF"
  shows "btoa s = Inr (base64_encode (map unat s))"
proof -
  have "\<not> list_ex (\<lambda>c. 0xFF < c) s" using assms by (auto simp: list_ex_iff)
  then show ?thesis by (simp add: btoa_def)
qed

lemma atob_btoa:
  assumes "\<forall>c \<in> set s. c \<le> 0xFF"
  shows "\<exists>encoded. btoa s = Inr encoded \<and> atob encoded = Inr s"
proof -
  have b: "\<forall>b \<in> set (map unat s). b < 256"
    using assms by (auto simp: word_le_nat_alt)
  have "map of_nat (map unat s) = s" by (simp add: map_idI)
  with atob_base64_encode[OF b] btoa_octets[OF assms] show ?thesis by simp
qed

section \<open>Verification: decryptData after encryptData\<close>

lemma remove_GP_suffix_append: "remove_GP_suffix (xs @ js ''_GP'') = xs"
  by (simp add: remove_GP_suffix_def js_def)

lemma split_on_nonempty: "split_on sep s \<noteq> []"
  by (induction s) (auto split: list.splits)

lemma split_on_prefix:
  "sep \<notin> set a \<Longrightarrow> split_on sep (a @ sep # b) = a # split_on sep b"
  by (induction a) auto

lemma join_Cons_Cons: "join sep ((c # p) # ps) = c # join sep (p # ps)"
  by (cases ps) simp_all

lemma join_split_on: "join [sep] (split_on sep s) = s"
proof (induction s)
  case Nil
  then show ?case by simp
next
  case (Cons c cs)
  obtain p ps where s: "split_on sep cs = p # ps"
    using split_on_nonempty[of sep cs] by (cases "split_on sep cs") auto
  with Cons show ?case by (simp add: join_Cons_Cons)
qed

lemma to_radix_36_step:
  "to_radix 36 n = (if n < 36 then [digit_char n] else to_radix 36 (n div 36) @ [digit_char (n mod 36)])"
  by (subst to_radix.simps) simp

lemma digit_char_alnum:
  assumes "d < 36"
  shows "is_alnum (digit_char d)"
proof -
  have "unat (of_nat (48 + d) :: code_unit) = 48 + d" "unat (of_nat (87 + d) :: code_unit) = 87 + d"
    using assms by (simp_all add: unat_of_nat16 del: of_nat_add)
  with assms show ?thesis
    by (simp add: is_alnum_unat digit_char_def del: of_nat_add)
qed

lemma to_radix_36_alnum: "\<forall>c \<in> set (to_radix 36 n). is_alnum c"
proof (induction n rule: less_induct)
  case (less n)
  show ?case
  proof (cases "n < 36")
    case True
    then show ?thesis by (subst to_radix_36_step) (simp add: digit_char_alnum)
  next
    case False
    then have "n div 36 < n" by simp
    from less[OF this] False show ?thesis
      by (subst to_radix_36_step) (simp add: digit_char_alnum)
  qed
qed

lemma salt_unreserved: "\<forall>c \<in> set (js ''GP_'' @ toString_radix 36 now). uri_unreserved c"
proof -
  have a: "\<forall>c \<in> set (js ''GP_''). uri_unreserved c"
    by (simp add: js_def cu_def uri_unreserved_def is_alnum_def)
  have b: "uri_unreserved (cu CHR ''-'')"
    by (simp add: cu_def uri_unreserved_def)
  have c: "\<forall>c \<in> set (to_radix 36 n). uri_unreserved c" for n
    using to_radix_36_alnum[of n] by (simp add: uri_unreserved_def)
  show ?thesis using a b c by (auto simp: toString_radix_def)
qed

lemma separator_not_unreserved: "\<not> uri_unreserved (cu CHR ''|'')"
  by (simp add: cu_def uri_unreserved_def is_alnum_def)

lemma surrogate_not_unreserved:
  "is_high_surrogate c \<or> is_low_surrogate c \<Longrightarrow> \<not> uri_unreserved c \<and> c \<noteq> cu CHR ''|''"
  using uri_unreserved_ascii[of c] by (auto simp: surrogate_unat cu_def)

lemma strip_padding_keeps:
  assumes "c \<in> set d" "c \<noteq> 0x3D"
  shows "c \<in> set (strip_padding d)"
proof -
  have k: "c \<in> set (butlast xs)" if "c \<in> set xs" "xs \<noteq> []" "last xs = 0x3D" for xs
  proof -
    from that(2) have "xs = butlast xs @ [last xs]" by simp
    then have "set xs = set (butlast xs) \<union> {last xs}" by (metis set_append list.set(1,2) Un_insert_right sup_bot.right_neutral)
    with that(1,3) assms(2) show ?thesis by auto
  qed
  show ?thesis
  proof (cases "length d mod 4 = 0 \<and> 2 \<le> length d \<and> last d = 0x3D \<and> last (butlast d) = 0x3D")
    case True
    then have "d \<noteq> []" "butlast d \<noteq> []" by (auto simp: butlast_conv_take)
    with True assms(1) have "c \<in> set (butlast (butlast d))" by (intro k) auto
    with True show ?thesis by (simp add: strip_padding_def)
  next
    case False
    then show ?thesis using assms(1) k[of d] by (auto simp: strip_padding_def)
  qed
qed

lemma atob_invalid:
  assumes "c \<in> set s" "is_high_surrogate c \<or> is_low_surrogate c"
  shows "atob s = Inl InvalidCharacterError"
proof -
  from assms(2) have u: "0xD800 \<le> unat c" by (auto simp: surrogate_unat)
  then have ws: "\<not> is_ascii_ws c" and p: "c \<noteq> 0x3D" and v: "b64_val c = None"
    by (auto simp: is_ascii_ws_def b64_val_unat word_unat_eq_iff)
  from assms(1) ws have "c \<in> set (filter (\<lambda>c. \<not> is_ascii_ws c) s)" by simp
  from strip_padding_keeps[OF this p] v
  have "list_ex (\<lambda>c. b64_val c = None) (strip_padding (filter (\<lambda>c. \<not> is_ascii_ws c) s))"
    by (auto simp: list_ex_iff)
  then show ?thesis by (simp add: atob_def Let_def)
qed

lemma remove_GP_suffix_keeps:
  assumes "c \<in> set s" "is_high_surrogate c \<or> is_low_surrogate c"
  shows "c \<in> set (remove_GP_suffix s)"
proof (cases "3 \<le> length s \<and> drop (length s - 3) s = js ''_GP''")
  case True
  have "s = take (length s - 3) s @ drop (length s - 3) s" by simp
  then have "set s = set (take (length s - 3) s) \<union> set (js ''_GP'')"
    using True by (metis set_append)
  moreover have "c \<notin> set (js ''_GP'')"
    using assms(2) by (auto simp: js_def cu_def surrogate_unat)
  ultimately show ?thesis using assms(1) True by (simp add: remove_GP_suffix_def)
next
  case False
  with assms(1) show ?thesis by (auto simp: remove_GP_suffix_def)
qed

lemma decryptData_surrogate:
  assumes "c \<in> set s" "is_high_surrogate c \<or> is_low_surrogate c"
  shows "decryptData s = s"
proof -
  from remove_GP_suffix_keeps[OF assms] have "c \<in> set (rev (remove_GP_suffix s))" by simp
  from atob_invalid[OF this assms(2)] show ?thesis by (simp add: decryptData_def Let_def)
qed

text \<open>
  Claim C1. For every string \<open>s\<close>, the empty string and strings that contain the
  separator \<open>|\<close> included, \<open>decryptData(encryptData(s))\<close> returns \<open>s\<close>, whatever the
  value of \<open>Date.now()\<close> from which \<open>encryptData\<close> builds its salt. This also holds
  for a string with a surrogate that is not part of a pair: \<open>encryptData\<close> catches
  the URIError and returns the string itself, on which \<open>atob\<close> fails in
  \<open>decryptData\<close>, which returns it again.
\<close>

theorem decryptData_encryptData:
  "decryptData (encryptData now s) = s"
proof -
  define salt where "salt = js ''GP_'' @ toString_radix 36 now"
  define combined where "combined = salt @ js ''|'' @ s"
  have salt: "\<forall>c \<in> set salt. uri_unreserved c" unfolding salt_def by (rule salt_unreserved)
  have sep: "cu CHR ''|'' \<notin> set salt" using salt separator_not_unreserved by blast
  have comb: "combined = salt @ cu CHR ''|'' # s" by (simp add: combined_def js_def)
  show ?thesis
  proof (cases "encodeURIComponent combined")
    case (Inl e)
    then have enc: "encryptData now s = s"
      by (simp add: encryptData_def Let_def salt_def[symmetric] combined_def[symmetric])
    from encodeURIComponent_error[OF Inl] obtain c where
      c: "c \<in> set combined" "is_high_surrogate c \<or> is_low_surrogate c" by blast
    from surrogate_not_unreserved[OF c(2)] c(1) salt have "c \<in> set s"
      by (auto simp: comb)
    from decryptData_surrogate[OF this c(2)] enc show ?thesis by simp
  next
    case (Inr uri)
    from uri_round_trip[OF Inr] have le: "\<forall>c \<in> set (unescape uri). c \<le> 0xFF"
      and dec: "decodeURIComponent (escape (unescape uri)) = Inr combined" by simp_all
    from atob_btoa[OF le] obtain encoded where
      b: "btoa (unescape uri) = Inr encoded" and a: "atob encoded = Inr (unescape uri)" by blast
    have enc: "encryptData now s = rev encoded @ js ''_GP''"
      by (simp add: encryptData_def Let_def salt_def[symmetric] combined_def[symmetric] Inr b)
    have parts: "split_on (cu CHR ''|'') combined = salt # split_on (cu CHR ''|'') s"
      unfolding comb using sep by (rule split_on_prefix)
    have "1 < length (split_on (cu CHR ''|'') combined)"
      using split_on_nonempty[of "cu CHR ''|''" s] by (cases "split_on (cu CHR ''|'') s") (simp_all add: parts)
    moreover have "join (js ''|'') (tl (split_on (cu CHR ''|'') combined)) = s"
      using join_split_on[of "cu CHR ''|''" s] by (simp add: parts js_def)
    ultimately show ?thesis
      by (simp add: enc decryptData_def Let_def remove_GP_suffix_append a dec)
  qed
qed

theorem decryptData_encryptData_witness:
  "decryptData (encryptData 46655 (js ''a|b||'')) = js ''a|b||'' \<and>
   decryptData (encryptData 46655 []) = [] \<and>
   decryptData (encryptData 46655 [0x0639, 0xD83D, 0xDE00, 0x7C, 0xDC00]) =
     [0x0639, 0xD83D, 0xDE00, 0x7C, 0xDC00]"
  using decryptData_encryptData[of 46655 "js ''a|b||''"] decryptData_encryptData[of 46655 "[]"]
    decryptData_encryptData[of 46655 "[0x0639, 0xD83D, 0xDE00, 0x7C, 0xDC00]"]
  by simp

text \<open>
  The obfuscated text itself, at the time value 46655 (\<open>zzz\<close> in base 36): the salted
  text \<open>GP_zzz|hi\<close> in Base64 is \<open>R1Bfenp6fGhp\<close>.
\<close>

lemma salt_example: "toString_radix 36 46655 = js ''zzz''"
  by (simp add: toString_radix_def to_radix.simps digit_char_def js_def cu_def)

lemma uri_example: "encodeURIComponent (js ''GP_zzz|hi'') = Inr (js ''GP_zzz%7Chi'')"
  by (simp add: js_def cu_def uri_unreserved_def is_alnum_def prepend_def is_low_surrogate_def
      is_high_surrogate_def percent_octets_def percent_octet_def utf8_octets_def upper_hex_def)

lemma unescape_example: "unescape (js ''GP_zzz%7Chi'') = js ''GP_zzz|hi''"
  by (simp add: js_def cu_def unescape.simps hex_val_def)

lemma btoa_example: "btoa (js ''GP_zzz|hi'') = Inr (js ''R1Bfenp6fGhp'')"
  by (simp add: js_def cu_def btoa_def base64_encode_def b64_char_def)

lemma encryptData_example:
  "encryptData 46655 (js ''hi'') = js ''phGf6pnefB1R_GP''"
proof -
  have "js ''GP_'' @ toString_radix 36 46655 @ js ''|'' @ js ''hi'' = js ''GP_zzz|hi''"
    by (simp add: salt_example) (simp add: js_def)
  then show ?thesis
    by (simp add: encryptData_def Let_def uri_example unescape_example btoa_example)
       (simp add: js_def)
qed

end
